theory Spec2Isabelle
  imports Main "HOL-Library.Sublist"
begin

section \<open>JavaScript strings\<close>

text \<open>
  A JavaScript string is a sequence of UTF-16 code units. A code unit is modelled as a
  natural number, so that the line terminators U+2028 and U+2029 and the Unicode white
  space that \<^verbatim>\<open>String.prototype.trim\<close> strips can be written down. A literal of the
  source is written \<open>js ''...''\<close>.
\<close>

type_synonym jsstring = "nat list"

definition js :: "string \<Rightarrow> jsstring" where
  "js s = map of_char s"

text \<open>LineTerminator and WhiteSpace of ECMAScript; \<open>trim\<close> strips both kinds.\<close>

definition is_line_terminator :: "nat \<Rightarrow> bool" where
  "is_line_terminator c = (c = 10 \<or> c = 13 \<or> c = 8232 \<or> c = 8233)"

definition is_white_space :: "nat \<Rightarrow> bool" where
  "is_white_space c =
     (c = 9 \<or> c = 11 \<or> c = 12 \<or> c = 32 \<or> c = 160 \<or> c = 5760 \<or>
      (8192 \<le> c \<and> c \<le> 8202) \<or> c = 8239 \<or> c = 8287 \<or> c = 12288 \<or> c = 65279)"

definition strippable :: "nat \<Rightarrow> bool" where
  "strippable c = (is_white_space c \<or> is_line_terminator c)"

definition trim :: "jsstring \<Rightarrow> jsstring" where
  "trim s = rev (dropWhile strippable (rev (dropWhile strippable s)))"

text \<open>\<^verbatim>\<open>s.split('\n')\<close>: the pieces between newlines, never an empty array.\<close>

fun split_nl :: "jsstring \<Rightarrow> jsstring list" where
  "split_nl [] = [[]]"
| "split_nl (c # cs) =
     (if c = 10 then [] # split_nl cs
      else (c # hd (split_nl cs)) # tl (split_nl cs))"

text \<open>\<^verbatim>\<open>line.startsWith('data: ')\<close> and \<^verbatim>\<open>line.slice(6)\<close>.\<close>

definition is_data_line :: "jsstring \<Rightarrow> bool" where
  "is_data_line line = prefix (js ''data: '') line"

definition payload :: "jsstring \<Rightarrow> jsstring" where
  "payload line = drop 6 line"

text \<open>\<^verbatim>\<open>x || ''\<close> on an optional string: an absent or empty value gives the empty string.\<close>

fun or_empty :: "jsstring option \<Rightarrow> jsstring" where
  "or_empty None = []"
| "or_empty (Some s) = s"

text \<open>Truthiness of an optional string: present and not empty.\<close>

fun truthy :: "jsstring option \<Rightarrow> bool" where
  "truthy None = False"
| "truthy (Some s) = (s \<noteq> [])"

section \<open>The event type of the chat hook keyed by session id\<close>

text \<open>
  There are two \<^verbatim>\<open>useChat\<close> hooks among the sources: one takes a session id (it
  declares \<^verbatim>\<open>SSEEvent\<close>, which the onboarding component imports), the other, in
  \<^verbatim>\<open>useChat.ts\<close>, works with the auth token. \<^verbatim>\<open>SSEEventType\<close> of the former is a
  closed union of string literal types; \<open>tag_of\<close> gives the string each member stands
  for.
\<close>

datatype SSEEventType =
    Routing
  | Agent_reasoning
  | Agent_response
  | Synthesis_start
  | Synthesis
  | Onboarding_question
  | Onboarding_complete
  | Done
  | Error

fun tag_of :: "SSEEventType \<Rightarrow> jsstring" where
  "tag_of Routing = js ''routing''"
| "tag_of Agent_reasoning = js ''agent_reasoning''"
| "tag_of Agent_response = js ''agent_response''"
| "tag_of Synthesis_start = js ''synthesis_start''"
| "tag_of Synthesis = js ''synthesis''"
| "tag_of Onboarding_question = js ''onboarding_question''"
| "tag_of Onboarding_complete = js ''onboarding_complete''"
| "tag_of Done = js ''done''"
| "tag_of Error = js ''error''"

text \<open>The eight tags the specification lists for a ChatEvent.\<close>

definition chat_event_tags :: "jsstring list" where
  "chat_event_tags =
     [js ''orchestration'', js ''routing'', js ''agent_response'', js ''synthesis'',
      js ''onboarding_question'', js ''onboarding_complete'', js ''done'', js ''error'']"

text \<open>The nine members of \<^verbatim>\<open>SSEEventType\<close>, as strings, in the order of the declaration.\<close>

definition sse_event_type_tags :: "jsstring list" where
  "sse_event_type_tags =
     [js ''routing'', js ''agent_reasoning'', js ''agent_response'', js ''synthesis_start'',
      js ''synthesis'', js ''onboarding_question'', js ''onboarding_complete'', js ''done'',
      js ''error'']"

record Question =
  q_id :: jsstring
  q_question :: jsstring
  q_field :: jsstring
  q_placeholder :: "jsstring option"
  q_options :: "jsstring list option"
  q_skip_label :: "jsstring option"

text \<open>
  \<^verbatim>\<open>SSEEvent\<close>: every field but the type is optional. \<open>step\<close> and \<open>total\<close> are the
  counters of the onboarding protocol.
\<close>

record SSEEvent =
  ev_type :: SSEEventType
  ev_content :: "jsstring option"
  ev_agent :: "jsstring option"
  ev_agent_name :: "jsstring option"
  ev_agent_emoji :: "jsstring option"
  ev_agent_color :: "jsstring option"
  ev_agents :: "jsstring list option"
  ev_step :: "nat option"
  ev_total :: "nat option"
  ev_question :: "Question option"

section \<open>Reading the event stream\<close>

text \<open>
  Both chat hooks read the response body with the same loop: append the decoded chunk to
  the buffer, split the buffer at newlines, keep the last piece as the new buffer and
  handle every other piece as a line. \<open>f\<close> is the body of the \<^verbatim>\<open>for\<close> loop, \<open>st\<close> the
  state it works on. The list of chunks is what \<^verbatim>\<open>reader.read()\<close> delivers until it
  reports \<^verbatim>\<open>done\<close>; a chunk is given as the text the streaming decoder returns for it.
\<close>

fun read_loop :: "('s \<Rightarrow> jsstring \<Rightarrow> 's) \<Rightarrow> jsstring \<Rightarrow> 's \<Rightarrow> jsstring list \<Rightarrow> 's" where
  "read_loop f buffer st [] = st"
| "read_loop f buffer st (chunk # chunks) =
     (let lines = split_nl (buffer @ chunk)
      in read_loop f (last lines) (foldl f st (butlast lines)) chunks)"

text \<open>
  The body of the \<^verbatim>\<open>for\<close> loop: a line without the prefix is skipped by \<^verbatim>\<open>continue\<close>,
  a payload that \<^verbatim>\<open>JSON.parse\<close> rejects is skipped by the empty \<^verbatim>\<open>catch\<close>. \<open>parse\<close>
  stands for \<^verbatim>\<open>JSON.parse\<close> with the cast to the event type, \<open>None\<close> for a throw.
\<close>

definition process_line :: "(jsstring \<Rightarrow> 'e option) \<Rightarrow> ('s \<Rightarrow> 'e \<Rightarrow> 's) \<Rightarrow> 's \<Rightarrow> jsstring \<Rightarrow> 's" where
  "process_line parse handle st line =
     (if \<not> is_data_line line then st
      else (case parse (payload line) of None \<Rightarrow> st | Some e \<Rightarrow> handle st e))"

text \<open>The lines of a whole stream that end with a newline.\<close>

definition complete_lines :: "jsstring \<Rightarrow> jsstring list" where
  "complete_lines s = butlast (split_nl s)"

text \<open>
  What the network does with a request of the hook keyed by session id or of the
  onboarding component: the fetch rejects, or a body arrives in chunks. Neither caller
  reacts to a read that fails after some chunks, which leaves what a stream ending there
  leaves; a response without a body throws where a rejected fetch does.
\<close>

datatype net_response = Fetch_rejected | Stream "jsstring list"

text \<open>
  What a call of \<^verbatim>\<open>sendMessage\<close> does: the message list it leaves, the values it passes
  to \<^verbatim>\<open>setIsStreaming\<close> in order, and the requests it issues.
\<close>

record ('m, 'r) send_result =
  res_messages :: "'m list"
  res_streaming_writes :: "bool list"
  res_requests :: "'r list"

section \<open>The chat hook keyed by session id\<close>

datatype Role_sid = User_sid | Assistant_sid | Routing_sid | Onboarding_sid

text \<open>
  \<^verbatim>\<open>ChatMessage\<close> without \<^verbatim>\<open>id\<close>, \<^verbatim>\<open>timestamp\<close> (both built from the clock) and
  \<^verbatim>\<open>events\<close>; \<open>cm_agents\<close> is the field the routing message adds by its cast.
\<close>

record ChatMessage_sid =
  cm_role :: Role_sid
  cm_content :: jsstring
  cm_agentKey :: "jsstring option"
  cm_agentName :: "jsstring option"
  cm_agentEmoji :: "jsstring option"
  cm_agentColor :: "jsstring option"
  cm_isSynthesis :: "bool option"
  cm_agents :: "jsstring list option"

definition blank_message :: "Role_sid \<Rightarrow> jsstring \<Rightarrow> ChatMessage_sid" where
  "blank_message r c =
     \<lparr>cm_role = r, cm_content = c, cm_agentKey = None, cm_agentName = None,
      cm_agentEmoji = None, cm_agentColor = None, cm_isSynthesis = None, cm_agents = None\<rparr>"

definition routing_message :: "SSEEvent \<Rightarrow> ChatMessage_sid" where
  "routing_message e =
     (blank_message Routing_sid (or_empty (ev_content e)))\<lparr>cm_agents := ev_agents e\<rparr>"

definition agent_message :: "SSEEvent \<Rightarrow> ChatMessage_sid" where
  "agent_message e =
     (blank_message Assistant_sid (or_empty (ev_content e)))
       \<lparr>cm_agentKey := ev_agent e, cm_agentName := ev_agent_name e,
        cm_agentEmoji := ev_agent_emoji e, cm_agentColor := ev_agent_color e,
        cm_isSynthesis := Some False\<rparr>"

text \<open>The emoji of the synthesis message is U+1F3DB U+FE0F, three code units.\<close>

definition synthesis_message :: "SSEEvent \<Rightarrow> ChatMessage_sid" where
  "synthesis_message e =
     (blank_message Assistant_sid (or_empty (ev_content e)))
       \<lparr>cm_agentEmoji := Some [55356, 57307, 65039], cm_agentName := Some (js ''Boardroom''),
        cm_agentColor := Some (js ''#6366f1''), cm_isSynthesis := Some True\<rparr>"

definition onboarding_message :: "SSEEvent \<Rightarrow> ChatMessage_sid" where
  "onboarding_message e =
     blank_message Onboarding_sid
       (if truthy (ev_content e) then or_empty (ev_content e)
        else (case ev_question e of None \<Rightarrow> [] | Some q \<Rightarrow> q_question q))"

text \<open>\<^verbatim>\<open>Array.prototype.findIndex\<close>, \<open>None\<close> for \<open>-1\<close>.\<close>

fun findIndex :: "('a \<Rightarrow> bool) \<Rightarrow> 'a list \<Rightarrow> nat option" where
  "findIndex P [] = None"
| "findIndex P (x # xs) = (if P x then Some 0 else map_option Suc (findIndex P xs))"

text \<open>\<^verbatim>\<open>m.agentKey === event.agent && !m.isSynthesis\<close>\<close>

definition same_agent :: "jsstring option \<Rightarrow> ChatMessage_sid \<Rightarrow> bool" where
  "same_agent a m = (cm_agentKey m = a \<and> cm_isSynthesis m \<noteq> Some True)"

text \<open>The updater passed to \<^verbatim>\<open>setMessages\<close> for an agent response: update or add.\<close>

definition update_or_add :: "SSEEvent \<Rightarrow> ChatMessage_sid list \<Rightarrow> ChatMessage_sid list" where
  "update_or_add e prev =
     (case findIndex (same_agent (ev_agent e)) prev of
        Some existing \<Rightarrow> prev[existing := agent_message e]
      | None \<Rightarrow> prev @ [agent_message e])"

text \<open>The chain of \<^verbatim>\<open>if\<close>s on \<^verbatim>\<open>event.type\<close>, as a function on the message list.\<close>

definition handle_event_sid :: "ChatMessage_sid list \<Rightarrow> SSEEvent \<Rightarrow> ChatMessage_sid list" where
  "handle_event_sid prev e =
     (if ev_type e = Routing \<and> ev_agents e \<noteq> None then prev @ [routing_message e]
      else if ev_type e = Agent_response \<and> truthy (ev_agent e) then update_or_add e prev
      else if ev_type e = Synthesis then prev @ [synthesis_message e]
      else if ev_type e = Onboarding_question \<or> ev_type e = Onboarding_complete
        then prev @ [onboarding_message e]
      else prev)"

record hook_sid =
  hs_messages :: "ChatMessage_sid list"
  hs_isStreaming :: bool

record request_sid =
  rq_session :: jsstring
  rq_message :: jsstring

text \<open>
  \<^verbatim>\<open>sendMessage\<close> of the hook keyed by session id. The only early return is on
  \<^verbatim>\<open>isStreaming\<close>; a blank text adds no user message but the request is still made.
  \<open>h\<close> is what the call sees: the message list as it is (the setter takes an updater)
  and the flag that its callback captured, as \<open>sessionId\<close> is the id it captured.
\<close>

definition sendMessage_sid ::
  "(jsstring \<Rightarrow> SSEEvent option) \<Rightarrow> jsstring \<Rightarrow> hook_sid \<Rightarrow> jsstring \<Rightarrow> net_response
     \<Rightarrow> (ChatMessage_sid, request_sid) send_result" where
  "sendMessage_sid parse sessionId h text net =
     (if hs_isStreaming h
      then \<lparr>res_messages = hs_messages h, res_streaming_writes = [], res_requests = []\<rparr>
      else
        (let m1 = (if trim text \<noteq> [] then hs_messages h @ [blank_message User_sid text]
                   else hs_messages h);
             m2 = (case net of
                     Fetch_rejected \<Rightarrow> m1
                   | Stream chunks \<Rightarrow> read_loop (process_line parse handle_event_sid) [] m1 chunks)
         in \<lparr>res_messages = m2, res_streaming_writes = [True, False],
             res_requests = [\<lparr>rq_session = sessionId, rq_message = text\<rparr>]\<rparr>))"


section \<open>The chat hook keyed by auth token\<close>

text \<open>
  \<^verbatim>\<open>useChat.ts\<close> types an event as \<^verbatim>\<open>Record<string, unknown>\<close>: the tag is whatever
  string the payload carries (or none), and the fields are read through casts. The record
  holds the fields the hook reads.
\<close>

record SubQueryInfo =
  sq_id :: jsstring
  sq_focus :: jsstring
  sq_agents :: "jsstring list"

record event_tok =
  et_type :: "jsstring option"
  et_content :: "jsstring option"
  et_agent :: "jsstring option"
  et_agent_name :: "jsstring option"
  et_agent_emoji :: "jsstring option"
  et_agent_color :: "jsstring option"
  et_intent :: "jsstring option"
  et_complexity :: "jsstring option"
  et_sub_queries :: "SubQueryInfo list option"
  et_reasoning :: "jsstring option"

datatype Role_tok = User_tok | Assistant_tok | Routing_tok | Orchestration_tok

text \<open>\<^verbatim>\<open>ChatMessage\<close> of \<^verbatim>\<open>useChat.ts\<close> without \<^verbatim>\<open>id\<close>, a random UUID.\<close>

record ChatMessage_tok =
  tm_role :: Role_tok
  tm_content :: "jsstring option"
  tm_agent :: "jsstring option"
  tm_agent_name :: "jsstring option"
  tm_agent_emoji :: "jsstring option"
  tm_agent_color :: "jsstring option"
  tm_isSynthesis :: "bool option"
  tm_intent :: "jsstring option"
  tm_complexity :: "jsstring option"
  tm_sub_queries :: "SubQueryInfo list option"
  tm_reasoning :: "jsstring option"

definition plain_message :: "Role_tok \<Rightarrow> jsstring option \<Rightarrow> ChatMessage_tok" where
  "plain_message r c =
     \<lparr>tm_role = r, tm_content = c, tm_agent = None, tm_agent_name = None,
      tm_agent_emoji = None, tm_agent_color = None, tm_isSynthesis = None, tm_intent = None,
      tm_complexity = None, tm_sub_queries = None, tm_reasoning = None\<rparr>"

definition orchestration_message_tok :: "event_tok \<Rightarrow> ChatMessage_tok" where
  "orchestration_message_tok e =
     (plain_message Orchestration_tok (et_content e))
       \<lparr>tm_intent := et_intent e, tm_complexity := et_complexity e,
        tm_sub_queries := et_sub_queries e, tm_reasoning := et_reasoning e\<rparr>"

definition agent_message_tok :: "event_tok \<Rightarrow> ChatMessage_tok" where
  "agent_message_tok e =
     (plain_message Assistant_tok (et_content e))
       \<lparr>tm_agent := et_agent e, tm_agent_name := et_agent_name e,
        tm_agent_emoji := et_agent_emoji e, tm_agent_color := et_agent_color e\<rparr>"

definition synthesis_message_tok :: "event_tok \<Rightarrow> ChatMessage_tok" where
  "synthesis_message_tok e =
     (plain_message Assistant_tok (et_content e))\<lparr>tm_isSynthesis := Some True\<rparr>"

text \<open>\<^verbatim>\<open>addMessage\<close> appends; the chain of \<^verbatim>\<open>if\<close>s on \<^verbatim>\<open>event.type\<close> has four branches.\<close>

definition handle_event_tok :: "ChatMessage_tok list \<Rightarrow> event_tok \<Rightarrow> ChatMessage_tok list" where
  "handle_event_tok prev e =
     (if et_type e = Some (js ''orchestration'') then prev @ [orchestration_message_tok e]
      else if et_type e = Some (js ''routing'') then prev @ [plain_message Routing_tok (et_content e)]
      else if et_type e = Some (js ''agent_response'') then prev @ [agent_message_tok e]
      else if et_type e = Some (js ''synthesis'') then prev @ [synthesis_message_tok e]
      else prev)"

record hook_tok =
  ht_messages :: "ChatMessage_tok list"
  ht_isStreaming :: bool
  ht_sessionId :: "jsstring option"
  ht_token :: "jsstring option"

record request_tok =
  rt_token :: jsstring
  rt_message :: jsstring
  rt_session_id :: "jsstring option"

text \<open>
  What the fetch of \<^verbatim>\<open>useChat.ts\<close> returns: a rejection, or a response with the
  \<^verbatim>\<open>X-Session-ID\<close> header, the \<^verbatim>\<open>ok\<close> flag and a body (absent, or its chunks and
  whether the read fails after them instead of reporting \<^verbatim>\<open>done\<close>).
\<close>

datatype body_tok = Body "jsstring list" bool

datatype response_tok =
    Rejected_tok
  | Response_tok "jsstring option" bool "body_tok option"

definition connecting_error :: ChatMessage_tok where
  "connecting_error =
     plain_message Assistant_tok
       (Some (js ''Error connecting to the Boardroom. Please try again.''))"

definition connection_error :: ChatMessage_tok where
  "connection_error =
     plain_message Assistant_tok
       (Some (js ''Connection error. Please check your internet and try again.''))"

text \<open>The result of a call, with the value it passes to \<^verbatim>\<open>setSessionId\<close>, if any.\<close>

record ('m, 'r) send_result_tok = "('m, 'r) send_result" +
  res_setSessionId :: "jsstring option"

text \<open>A call that returns at once.\<close>

definition unchanged_tok :: "hook_tok \<Rightarrow> (ChatMessage_tok, request_tok) send_result_tok" where
  "unchanged_tok h =
     \<lparr>res_messages = ht_messages h, res_streaming_writes = [], res_requests = [],
      res_setSessionId = None\<rparr>"

text \<open>
  \<^verbatim>\<open>sendMessage\<close> of \<^verbatim>\<open>useChat.ts\<close>: it returns at once on a blank text, while a
  stream is in progress, and without a token. Otherwise the user message is added, the
  flag set and the request made; the \<^verbatim>\<open>catch\<close> adds the connection error, and the
  \<^verbatim>\<open>finally\<close> clears the flag on every path. \<open>h\<close> is what the call sees: the message
  list as it is (the setters take updaters) and the flag, the token and the session id
  that its callback captured.
\<close>

definition sendMessage_tok ::
  "(jsstring \<Rightarrow> event_tok option) \<Rightarrow> hook_tok \<Rightarrow> jsstring \<Rightarrow> response_tok
     \<Rightarrow> (ChatMessage_tok, request_tok) send_result_tok" where
  "sendMessage_tok parse h text net =
     (if trim text = [] \<or> ht_isStreaming h \<or> \<not> truthy (ht_token h) then unchanged_tok h
      else
        (let m1 = ht_messages h @ [plain_message User_tok (Some text)];
             m2 = (case net of
                     Rejected_tok \<Rightarrow> m1 @ [connection_error]
                   | Response_tok newSessionId ok body \<Rightarrow>
                       (case body of
                          None \<Rightarrow> m1 @ [connecting_error]
                        | Some (Body chunks fails) \<Rightarrow>
                            if \<not> ok then m1 @ [connecting_error]
                            else (let m = read_loop (process_line parse handle_event_tok) [] m1 chunks
                                  in if fails then m @ [connection_error] else m)));
             sid = (case net of
                      Rejected_tok \<Rightarrow> None
                    | Response_tok newSessionId ok body \<Rightarrow>
                        if truthy newSessionId then newSessionId else None)
         in \<lparr>res_messages = m2, res_streaming_writes = [True, False],
             res_requests = [\<lparr>rt_token = or_empty (ht_token h), rt_message = text,
                              rt_session_id = ht_sessionId h\<rparr>],
             res_setSessionId = sid\<rparr>))"


section \<open>The onboarding component\<close>

record onboarding =
  ob_currentQuestion :: "Question option"
  ob_step :: nat
  ob_total :: nat
  ob_inputValue :: jsstring
  ob_isLoading :: bool
  ob_context :: "jsstring \<rightharpoonup> jsstring"
  ob_history :: "(jsstring \<times> jsstring) list"
  ob_isAnimating :: bool

definition initial_onboarding :: onboarding where
  "initial_onboarding =
     \<lparr>ob_currentQuestion = None, ob_step = 0, ob_total = 8, ob_inputValue = [],
      ob_isLoading = True, ob_context = Map.empty, ob_history = [], ob_isAnimating = False\<rparr>"

text \<open>\<^verbatim>\<open>event.step || 0\<close> and \<^verbatim>\<open>event.total || 8\<close>\<close>

fun or_default :: "nat \<Rightarrow> nat option \<Rightarrow> nat" where
  "or_default d None = d"
| "or_default d (Some n) = (if n = 0 then d else n)"

definition show_question :: "onboarding \<Rightarrow> SSEEvent \<Rightarrow> onboarding" where
  "show_question st e =
     st\<lparr>ob_currentQuestion := ev_question e, ob_step := or_default 0 (ev_step e),
        ob_total := or_default 8 (ev_total e)\<rparr>"

text \<open>
  The \<^verbatim>\<open>for\<close> loop of \<^verbatim>\<open>submit\<close> over the lines of one chunk. The flag of the result
  says that \<^verbatim>\<open>onboarding_complete\<close> was met and \<^verbatim>\<open>submit\<close> returned there.
\<close>

fun ob_lines :: "(jsstring \<Rightarrow> SSEEvent option) \<Rightarrow> onboarding \<Rightarrow> jsstring list \<Rightarrow> onboarding \<times> bool" where
  "ob_lines parse st [] = (st, False)"
| "ob_lines parse st (l # ls) =
     (if \<not> is_data_line l then ob_lines parse st ls
      else (case parse (payload l) of
              None \<Rightarrow> ob_lines parse st ls
            | Some e \<Rightarrow>
                if ev_type e = Onboarding_question \<and> ev_question e \<noteq> None
                  then ob_lines parse (show_question st e) ls
                else if ev_type e = Onboarding_complete then (st, True)
                else ob_lines parse st ls))"

fun ob_read :: "(jsstring \<Rightarrow> SSEEvent option) \<Rightarrow> jsstring \<Rightarrow> onboarding \<Rightarrow> jsstring list \<Rightarrow> onboarding \<times> bool" where
  "ob_read parse buf st [] = (st, False)"
| "ob_read parse buf st (chunk # chunks) =
     (let lines = split_nl (buf @ chunk)
      in (case ob_lines parse st (butlast lines) of
            (st', True) \<Rightarrow> (st', True)
          | (st', False) \<Rightarrow> ob_read parse (last lines) st' chunks))"

text \<open>
  What a call of \<^verbatim>\<open>submit\<close> does: the state it leaves, the message it posts (if any) and
  the argument of \<^verbatim>\<open>onComplete\<close> (if called).
\<close>

record submit_result =
  sr_state :: onboarding
  sr_posted :: "jsstring option"
  sr_onComplete :: "(jsstring \<rightharpoonup> jsstring) option"

text \<open>
  \<^verbatim>\<open>submit\<close> is created by the render that shows the state \<open>s\<close>; \<^verbatim>\<open>currentQuestion\<close>,
  \<^verbatim>\<open>isAnimating\<close> and \<^verbatim>\<open>context\<close> in its body are the values of that render. The
  setters with an updater work on the state as it is when they run.
\<close>

definition submit ::
  "(jsstring \<Rightarrow> SSEEvent option) \<Rightarrow> onboarding \<Rightarrow> jsstring \<Rightarrow> net_response \<Rightarrow> submit_result" where
  "submit parse s v net =
     (case ob_currentQuestion s of
        None \<Rightarrow> \<lparr>sr_state = s, sr_posted = None, sr_onComplete = None\<rparr>
      | Some q \<Rightarrow>
          if ob_isAnimating s then \<lparr>sr_state = s, sr_posted = None, sr_onComplete = None\<rparr>
          else
            (let answer = trim v;
                 s1 = s\<lparr>ob_isAnimating := True\<rparr>;
                 s2 = (if answer \<noteq> []
                       then s1\<lparr>ob_context := (ob_context s1)(q_field q \<mapsto> answer),
                               ob_history := ob_history s1 @ [(q_question q, answer)]\<rparr>
                       else s1);
                 s3 = s2\<lparr>ob_inputValue := []\<rparr>;
                 r = (case net of
                        Fetch_rejected \<Rightarrow> (s3, False)
                      | Stream chunks \<Rightarrow> ob_read parse [] s3 chunks)
             in \<lparr>sr_state = (fst r)\<lparr>ob_isAnimating := False\<rparr>,
                 sr_posted = Some (if answer \<noteq> [] then answer else js ''skip''),
                 sr_onComplete = (if snd r then Some (ob_context s) else None)\<rparr>))"

text \<open>The skip button calls \<^verbatim>\<open>submit('skip')\<close>; Enter calls \<^verbatim>\<open>submit(inputValue)\<close>.\<close>

definition click_skip :: "(jsstring \<Rightarrow> SSEEvent option) \<Rightarrow> onboarding \<Rightarrow> net_response \<Rightarrow> submit_result" where
  "click_skip parse s net = submit parse s (js ''skip'') net"

definition press_enter :: "(jsstring \<Rightarrow> SSEEvent option) \<Rightarrow> onboarding \<Rightarrow> net_response \<Rightarrow> submit_result" where
  "press_enter parse s net = submit parse s (ob_inputValue s) net"



section \<open>The application shell\<close>

datatype AppState = Onboarding | Boardroom

text \<open>The state of \<^verbatim>\<open>App\<close>; the context is \<open>None\<close> when \<^verbatim>\<open>undefined\<close> was stored.\<close>

record app =
  appState :: AppState
  app_context :: "(jsstring \<rightharpoonup> jsstring) option"
  sessionId :: jsstring

















section \<open>Rendering an agent message\<close>

text \<open>
  \<^verbatim>\<open>renderMarkdown\<close> is a chain of eleven \<^verbatim>\<open>String.prototype.replace\<close> calls with
  global regular expressions. A regular expression is given as a matcher: at a position
  of the string, told whether the position starts a line (for \<^verbatim>\<open>^\<close> under the flag
  \<^verbatim>\<open>m\<close>), it yields the replacement text and the number of code units matched, or
  \<open>None\<close>.
\<close>

type_synonym matcher = "bool \<Rightarrow> jsstring \<Rightarrow> (jsstring \<times> nat) option"

text \<open>The regular expression atoms \<^verbatim>\<open>.\<close> (anything but a line terminator) and \<^verbatim>\<open>\d\<close>.\<close>

definition dot_char :: "nat \<Rightarrow> bool" where
  "dot_char c = (\<not> is_line_terminator c)"

definition digit_char :: "nat \<Rightarrow> bool" where
  "digit_char c = (48 \<le> c \<and> c \<le> 57)"

text \<open>
  A global replace scans the string from the left: where the expression matches, the
  replacement is emitted and the scan goes on behind the match; elsewhere the code unit
  is copied. After an empty match the replacement is emitted and one code unit copied.
  No matcher below yields an empty match or one longer than the string; the test on
  \<open>n\<close> only makes the recursion total.
\<close>

function replace_all :: "matcher \<Rightarrow> bool \<Rightarrow> jsstring \<Rightarrow> jsstring" where
  "replace_all m bol s =
     (case m bol s of
        Some (rep, n) \<Rightarrow>
          if 0 < n \<and> n \<le> length s
          then rep @ replace_all m (is_line_terminator (s ! (n - 1))) (drop n s)
          else rep @ (case s of [] \<Rightarrow> [] | c # r \<Rightarrow> c # replace_all m (is_line_terminator c) r)
      | None \<Rightarrow> (case s of [] \<Rightarrow> [] | c # r \<Rightarrow> c # replace_all m (is_line_terminator c) r))"
  by pat_completeness auto
termination
  by (relation "measure (\<lambda>(m, bol, s). length s)") auto

declare replace_all.simps [simp del]

text \<open>
  The lazy group \<^verbatim>\<open>(.+?)\<close> followed by the literal \<open>close\<close>: the shortest run of at
  least one \<^verbatim>\<open>.\<close> after which \<open>close\<close> stands.
\<close>

fun lazy_group :: "jsstring \<Rightarrow> jsstring \<Rightarrow> jsstring option" where
  "lazy_group close [] = None"
| "lazy_group close (c # r) =
     (if \<not> dot_char c then None
      else if prefix close r then Some [c]
      else map_option ((#) c) (lazy_group close r))"

text \<open>\<^verbatim>\<open>/\*\*(.+?)\*\*/g\<close> and \<^verbatim>\<open>/\*(.+?)\*/g\<close>: the group between two delimiters.\<close>

definition m_delimited :: "jsstring \<Rightarrow> jsstring \<Rightarrow> jsstring \<Rightarrow> matcher" where
  "m_delimited delim opening closing bol s =
     (if prefix delim s
      then (case lazy_group delim (drop (length delim) s) of
              Some g \<Rightarrow> Some (opening @ g @ closing, length delim + length g + length delim)
            | None \<Rightarrow> None)
      else None)"

text \<open>
  \<^verbatim>\<open>/^### (.+)$/gm\<close> and its like: at the start of a line, the prefix and then the
  rest of the line, which must not be empty.
\<close>

definition m_line_prefix :: "jsstring \<Rightarrow> jsstring \<Rightarrow> jsstring \<Rightarrow> matcher" where
  "m_line_prefix pre opening closing bol s =
     (if bol \<and> prefix pre s
      then (let line = takeWhile dot_char (drop (length pre) s)
            in if line = [] then None
               else Some (opening @ line @ closing, length pre + length line))
      else None)"

text \<open>
  \<^verbatim>\<open>/(<li>.*<\/li>\n?)+/g\<close>. In one round of the group the greedy \<^verbatim>\<open>.*\<close> runs to the
  last \<^verbatim>\<open></li>\<close> of the line: \<open>last_close\<close> finds where it starts. The rounds are
  repeated as long as one matches.
\<close>

fun last_close :: "jsstring \<Rightarrow> nat option" where
  "last_close [] = None"
| "last_close (c # r) =
     (case last_close r of
        Some j \<Rightarrow> Some (Suc j)
      | None \<Rightarrow> if prefix (js ''</li>'') (c # r) then Some 0 else None)"

definition li_group :: "jsstring \<Rightarrow> nat option" where
  "li_group s =
     (if prefix (js ''<li>'') s
      then (case last_close (takeWhile dot_char (drop 4 s)) of
              Some j \<Rightarrow> Some (if prefix [10] (drop (4 + j + 5) s) then 4 + j + 5 + 1 else 4 + j + 5)
            | None \<Rightarrow> None)
      else None)"

function li_groups :: "jsstring \<Rightarrow> nat" where
  "li_groups s =
     (case li_group s of
        None \<Rightarrow> 0
      | Some n \<Rightarrow> if 0 < n \<and> n \<le> length s then n + li_groups (drop n s) else n)"
  by pat_completeness auto
termination
  by (relation "measure length") auto

declare li_groups.simps [simp del]

definition m_ul :: matcher where
  "m_ul bol s =
     (let n = li_groups s
      in if n = 0 then None else Some (js ''<ul>'' @ take n s @ js ''</ul>'', n))"

text \<open>\<^verbatim>\<open>/^\d+\. (.+)$/gm\<close>\<close>

definition m_ol :: matcher where
  "m_ol bol s =
     (let ds = takeWhile digit_char s; r = drop (length ds) s
      in if bol \<and> ds \<noteq> [] \<and> prefix (js ''. '') r
         then (let line = takeWhile dot_char (drop 2 r)
               in if line = [] then None
                  else Some (js ''<li>'' @ line @ js ''</li>'', length ds + 2 + length line))
         else None)"

text \<open>\<^verbatim>\<open>/^---$/gm\<close>\<close>

definition m_hr :: matcher where
  "m_hr bol s =
     (if bol \<and> prefix (js ''---'') s \<and>
         (case drop 3 s of [] \<Rightarrow> True | c # r \<Rightarrow> is_line_terminator c)
      then Some (js ''<hr/>'', 3) else None)"

text \<open>\<^verbatim>\<open>/\n\n/g\<close>\<close>

definition m_par :: matcher where
  "m_par bol s = (if prefix [10, 10] s then Some (js ''</p><p>'', 2) else None)"

text \<open>\<^verbatim>\<open>/^(.+)$/gm\<close> with a callback that returns the line in both of its branches.\<close>

definition m_line :: matcher where
  "m_line bol s =
     (let line = takeWhile dot_char s
      in if bol \<and> line \<noteq> [] then Some (line, length line) else None)"

definition renderMarkdown :: "jsstring \<Rightarrow> jsstring" where
  "renderMarkdown text =
     replace_all m_line True
      (replace_all m_par True
       (replace_all m_hr True
        (replace_all m_ol True
         (replace_all m_ul True
          (replace_all (m_line_prefix (js ''- '') (js ''<li>'') (js ''</li>'')) True
           (replace_all (m_line_prefix (js ''# '') (js ''<h1>'') (js ''</h1>'')) True
            (replace_all (m_line_prefix (js ''## '') (js ''<h2>'') (js ''</h2>'')) True
             (replace_all (m_line_prefix (js ''### '') (js ''<h3>'') (js ''</h3>'')) True
              (replace_all (m_delimited (js ''*'') (js ''<em>'') (js ''</em>'')) True
               (replace_all (m_delimited (js ''**'') (js ''<strong>'') (js ''</strong>'')) True
                 text))))))))))"

text \<open>
  The agent message component sets the result as the inner HTML of the message body
  (\<^verbatim>\<open>dangerouslySetInnerHTML\<close>).
\<close>

definition inner_html :: "ChatMessage_sid \<Rightarrow> jsstring" where
  "inner_html message = renderMarkdown (cm_content message)"

section \<open>The orchestration run\<close>

text \<open>
  Modelled from the spec: the classifier, the dispatcher, the synthesizer and the event
  stream encoder run on the server, which is not among the sources. This section
  follows sections 3, 4 and 5 of the specification; keys and texts are plain
  strings.
\<close>

text \<open>Modelled from the spec: the complexity tier of a plan (section 3), declared by the
  missing classifier.\<close>

datatype complexity = Simple | Compound | Complex

text \<open>Modelled from the spec: SubQuery (section 3) of the missing classifier: an id, a
  focus and the keys of the personas that should answer.\<close>

record SubQuery =
  sub_id :: nat
  sub_focus :: string
  sub_personas :: "string list"

text \<open>Modelled from the spec: OrchestrationPlan (section 3), the output of the missing
  classifier.\<close>

record OrchestrationPlan =
  plan_intent :: string
  plan_complexity :: complexity
  plan_sub_queries :: "SubQuery list"
  plan_reasoning :: string

text \<open>Modelled from the spec: PersonaResult (section 3) of the missing dispatcher, \<open>None\<close>
  for the failure marker; the latency is an input of the run.\<close>

record PersonaResult =
  pr_persona :: string
  pr_sub_id :: nat
  pr_content :: "string option"

text \<open>Modelled from the spec: ChatEvent (section 3), the tagged variant that the missing
  event stream encoder delivers.\<close>

datatype ChatEvent =
    Ev_orchestration OrchestrationPlan
  | Ev_routing "string list"
  | Ev_agent_response PersonaResult
  | Ev_synthesis string
  | Ev_onboarding_question string
  | Ev_onboarding_complete "(string \<times> string) list"
  | Ev_done nat
  | Ev_error string

text \<open>
  Modelled from the spec: what a run of the missing server depends on. The registry and
  the generalist key (sections 2 and 4.1); the message; the plan of the classifier,
  \<open>None\<close> when the classification call fails (4.1); the reply of the completion gateway
  to each call, \<open>None\<close> for a failure or a timeout, and the time each call takes (4.2);
  and the reply to the synthesis call (4.3).
\<close>

record run_input =
  ri_registry :: "string list"
  ri_generalist :: string
  ri_message :: string
  ri_classified :: "OrchestrationPlan option"
  ri_complete :: "nat \<Rightarrow> string \<Rightarrow> string option"
  ri_latency :: "nat \<times> string \<Rightarrow> nat"
  ri_synthesis :: "string option"

text \<open>Modelled from the spec: the fallback of the missing classifier (4.1): one sub-query
  covering the full message, routed to the generalist, the reasoning marked.\<close>

definition fallback_plan :: "string \<Rightarrow> string \<Rightarrow> OrchestrationPlan" where
  "fallback_plan generalist message =
     \<lparr>plan_intent = ''general'', plan_complexity = Simple,
      plan_sub_queries = [\<lparr>sub_id = 0, sub_focus = message, sub_personas = [generalist]\<rparr>],
      plan_reasoning = ''fallback: classification failed''\<rparr>"

text \<open>Modelled from the spec: the plan the missing classifier hands on (4.1); a failed
  classification never blocks the pipeline.\<close>

definition plan_of :: "run_input \<Rightarrow> OrchestrationPlan" where
  "plan_of i =
     (case ri_classified i of
        Some p \<Rightarrow> p
      | None \<Rightarrow> fallback_plan (ri_generalist i) (ri_message i))"

text \<open>Modelled from the spec: the calls of the missing dispatcher (4.2): one per pair of
  sub-query and persona, unknown keys dropped.\<close>

definition dispatch :: "string list \<Rightarrow> OrchestrationPlan \<Rightarrow> (nat \<times> string) list" where
  "dispatch registry plan =
     concat (map (\<lambda>q. map (\<lambda>p. (sub_id q, p))
                          (filter (\<lambda>p. p \<in> set registry) (sub_personas q)))
                 (plan_sub_queries plan))"

text \<open>Modelled from the spec: the calls of the missing dispatcher in the run \<open>i\<close>.\<close>

definition dispatched :: "run_input \<Rightarrow> (nat \<times> string) list" where
  "dispatched i = dispatch (ri_registry i) (plan_of i)"

text \<open>Modelled from the spec: the results of the missing dispatcher in completion order,
  first to finish first (4.2); a failed call yields a result with the failure marker.\<close>

definition settle :: "run_input \<Rightarrow> PersonaResult list" where
  "settle i =
     map (\<lambda>(q, p). \<lparr>pr_persona = p, pr_sub_id = q, pr_content = ri_complete i q p\<rparr>)
         (sort_key (ri_latency i) (dispatched i))"

text \<open>Modelled from the spec: the test of the missing synthesizer as its contract words
  it (4.3): two or more personas contributed, or the sub-query of a single persona was
  one of several. Sections 3 and 8 name the first condition only; the two readings
  differ for one persona that answers several sub-queries, and nothing stated below
  depends on which of them is taken.\<close>

definition needs_synthesis :: "PersonaResult list \<Rightarrow> bool" where
  "needs_synthesis rs =
     (2 \<le> length (remdups (map pr_persona rs)) \<or> 2 \<le> length (remdups (map pr_sub_id rs)))"

text \<open>Modelled from the spec: the aggregate the missing synthesizer falls back to when
  its own call fails (4.3): the raw answers, flagged.\<close>

definition unsynthesized :: "PersonaResult list \<Rightarrow> string" where
  "unsynthesized rs =
     ''[unsynthesized] '' @
     concat (map (\<lambda>r. case pr_content r of Some c \<Rightarrow> c | None \<Rightarrow> []) rs)"

text \<open>Modelled from the spec: the missing synthesizer (4.3): one more call, and the
  synthesis event, when the test holds; nothing otherwise.\<close>

definition synthesize :: "string option \<Rightarrow> PersonaResult list \<Rightarrow> ChatEvent list" where
  "synthesize reply rs =
     (if needs_synthesis rs
      then [Ev_synthesis (case reply of Some text \<Rightarrow> text | None \<Rightarrow> unsynthesized rs)]
      else [])"

text \<open>Modelled from the spec: total failure in the missing encoder (4.4 and 7): the
  classification fell back and every persona call failed.\<close>

definition total_failure :: "run_input \<Rightarrow> PersonaResult list \<Rightarrow> bool" where
  "total_failure i rs = (ri_classified i = None \<and> list_all (\<lambda>r. pr_content r = None) rs)"

text \<open>Modelled from the spec: the events that the missing encoder delivers for a run,
  which by the glossary is the processing of one message from classification through
  the terminal event (4.2 to 4.4 and the order of section 5): the routing, the agent
  responses as completed, the synthesis if any, and the terminal event. The plan event
  of section 3 has no place fixed by the specification; it is put first.\<close>

definition run_events :: "run_input \<Rightarrow> ChatEvent list" where
  "run_events i =
     [Ev_orchestration (plan_of i), Ev_routing (remdups (map snd (dispatched i)))] @
     map Ev_agent_response (settle i) @
     synthesize (ri_synthesis i) (settle i) @
     [if total_failure i (settle i) then Ev_error ''no content''
      else Ev_done (length (settle i))]"

fun is_routing :: "ChatEvent \<Rightarrow> bool" where
  "is_routing (Ev_routing ps) = True"
| "is_routing e = False"

fun is_synthesis :: "ChatEvent \<Rightarrow> bool" where
  "is_synthesis (Ev_synthesis t) = True"
| "is_synthesis e = False"

fun is_terminal :: "ChatEvent \<Rightarrow> bool" where
  "is_terminal (Ev_done n) = True"
| "is_terminal (Ev_error t) = True"
| "is_terminal e = False"

definition count_where :: "('a \<Rightarrow> bool) \<Rightarrow> 'a list \<Rightarrow> nat" where
  "count_where P xs = length (filter P xs)"


section \<open>Notions the properties are stated with\<close>

text \<open>The members of \<^verbatim>\<open>SSEEventType\<close> in the order of the declaration.\<close>

definition all_event_types :: "SSEEventType list" where
  "all_event_types =
     [Routing, Agent_reasoning, Agent_response, Synthesis_start, Synthesis,
      Onboarding_question, Onboarding_complete, Done, Error]"

text \<open>The tags for which \<^verbatim>\<open>useChat.ts\<close> adds a message.\<close>

definition rendered_tags_tok :: "jsstring list" where
  "rendered_tags_tok =
     [js ''orchestration'', js ''routing'', js ''agent_response'', js ''synthesis'']"




text \<open>
  The events of a list of lines: the payloads of the lines with the prefix that
  \<open>parse\<close> accepts, in order.
\<close>

definition stream_events :: "(jsstring \<Rightarrow> 'e option) \<Rightarrow> jsstring list \<Rightarrow> 'e list" where
  "stream_events parse ls =
     List.map_filter (\<lambda>l. if is_data_line l then parse (payload l) else None) ls"

text \<open>A stream of the lines \<open>ls\<close>, each ended by a newline, and an unfinished rest.\<close>

definition stream_of :: "jsstring list \<Rightarrow> jsstring \<Rightarrow> jsstring" where
  "stream_of ls rest = concat (map (\<lambda>l. l @ [10]) ls) @ rest"

definition newline_free :: "jsstring \<Rightarrow> bool" where
  "newline_free l = (10 \<notin> set l)"



text \<open>
  A tag without markup inside: \<^verbatim>\<open><\<close>, then code units other than \<^verbatim>\<open><\<close>, \<^verbatim>\<open>>\<close>,
  \<^verbatim>\<open>*\<close> and the line terminators, then \<^verbatim>\<open>>\<close>.
\<close>

definition plain_tag :: "jsstring \<Rightarrow> bool" where
  "plain_tag t =
     (case t of
        [] \<Rightarrow> False
      | c # r \<Rightarrow>
          c = 60 \<and> r \<noteq> [] \<and> last r = 62 \<and>
          list_all (\<lambda>c. c \<noteq> 60 \<and> c \<noteq> 62 \<and> c \<noteq> 42 \<and> \<not> is_line_terminator c) (butlast r))"

text \<open>
  \<open>t\<close> lies across the end of \<open>a\<close>; and a matcher keeps \<open>t\<close>: what it matches lies in
  the string, an occurrence of \<open>t\<close> inside a match is in the replacement, no match ends
  inside an occurrence of \<open>t\<close> and none starts inside one.
\<close>

definition straddles :: "jsstring \<Rightarrow> jsstring \<Rightarrow> jsstring \<Rightarrow> bool" where
  "straddles t a b =
     (\<exists>t1 t2. t = t1 @ t2 \<and> t1 \<noteq> [] \<and> t2 \<noteq> [] \<and> suffix t1 a \<and> prefix t2 b)"

definition keeps :: "jsstring \<Rightarrow> matcher \<Rightarrow> bool" where
  "keeps t m =
     ((\<forall>bol s rep n. m bol s = Some (rep, n) \<longrightarrow>
         0 < n \<and> n \<le> length s \<and> (sublist t (take n s) \<longrightarrow> sublist t rep) \<and>
         \<not> straddles t (take n s) (drop n s)) \<and>
      (\<forall>s t1 t2. t = t1 @ t2 \<and> t1 \<noteq> [] \<and> t2 \<noteq> [] \<and> prefix t2 s \<longrightarrow> m False s = None))"

section \<open>Concrete inputs\<close>

text \<open>An event with nothing but its type, and an agent response with a key and a text.\<close>

definition event_of :: "SSEEventType \<Rightarrow> SSEEvent" where
  "event_of t =
     \<lparr>ev_type = t, ev_content = None, ev_agent = None, ev_agent_name = None,
      ev_agent_emoji = None, ev_agent_color = None, ev_agents = None, ev_step = None,
      ev_total = None, ev_question = None\<rparr>"

definition agent_response_event :: "jsstring \<Rightarrow> jsstring \<Rightarrow> SSEEvent" where
  "agent_response_event key text =
     (event_of Agent_response)\<lparr>ev_agent := Some key, ev_content := Some text\<rparr>"

definition event_tok_of :: "jsstring \<Rightarrow> event_tok" where
  "event_tok_of t =
     \<lparr>et_type = Some t, et_content = None, et_agent = None, et_agent_name = None,
      et_agent_emoji = None, et_agent_color = None, et_intent = None, et_complexity = None,
      et_sub_queries = None, et_reasoning = None\<rparr>"

text \<open>The onboarding component showing the question \<open>q\<close>, nothing answered yet.\<close>

definition asking :: "Question \<Rightarrow> onboarding" where
  "asking q = initial_onboarding\<lparr>ob_currentQuestion := Some q, ob_isLoading := False\<rparr>"

definition company_question :: Question where
  "company_question =
     \<lparr>q_id = js ''company'', q_question = js ''What is your company called?'',
      q_field = js ''company_name'', q_placeholder = None, q_options = None,
      q_skip_label = None\<rparr>"

definition goals_question :: Question where
  "goals_question =
     \<lparr>q_id = js ''goals'', q_question = js ''What are your goals?'',
      q_field = js ''goals'', q_placeholder = None, q_options = None,
      q_skip_label = None\<rparr>"

text \<open>The last step of an onboarding in which the name was answered before.\<close>

definition last_step :: onboarding where
  "last_step = (asking goals_question)\<lparr>ob_context := [js ''name'' \<mapsto> js ''Ada'']\<rparr>"

text \<open>A server reply of one line whose payload parses to \<^verbatim>\<open>onboarding_complete\<close>.\<close>

definition completing :: "jsstring \<Rightarrow> SSEEvent option" where
  "completing p = Some (event_of Onboarding_complete)"

definition one_line :: net_response where
  "one_line = Stream [js ''data: {}'' @ [10]]"






text \<open>Three lines and a rest, cut into three chunks; parsers that accept the payload \<^verbatim>\<open>a\<close> only.\<close>

definition three_lines :: "jsstring list" where
  "three_lines = [js ''data: a'', js ''x'', js ''data: b'']"

definition three_chunks :: "jsstring list" where
  "three_chunks =
     [js ''data: a'', [10] @ js ''x'' @ [10] @ js ''da'', js ''ta: b'' @ [10] @ js ''tail'']"

definition only_a :: "jsstring \<Rightarrow> SSEEvent option" where
  "only_a p = (if p = js ''a'' then Some (agent_response_event (js ''CEO'') (js ''c'')) else None)"

definition only_a_tok :: "jsstring \<Rightarrow> event_tok option" where
  "only_a_tok p = (if p = js ''a'' then Some (event_tok_of (js ''agent_response'')) else None)"


section \<open>Facts about strings and the stream loop\<close>

lemma split_nl_nonempty: "split_nl s \<noteq> []"
  by (induction s) auto

lemma split_nl_append:
  "split_nl (a @ b) = butlast (split_nl a) @ split_nl (last (split_nl a) @ b)"
proof (induction a)
  case Nil
  show ?case by simp
next
  case (Cons c a)
  show ?case
  proof (cases "c = 10")
    case True
    with Cons show ?thesis by (simp add: split_nl_nonempty)
  next
    case False
    obtain l ls where sp: "split_nl a = l # ls"
      using split_nl_nonempty [of a] by (cases "split_nl a") auto
    show ?thesis
    proof (cases ls)
      case Nil
      with sp Cons False show ?thesis by simp
    next
      case (Cons l' ls')
      with sp Cons.IH False show ?thesis by simp
    qed
  qed
qed

lemma last_split_no_nl: "10 \<notin> set (last (split_nl s))"
proof (induction s)
  case Nil
  show ?case by simp
next
  case (Cons c s)
  obtain l ls where sp: "split_nl s = l # ls"
    using split_nl_nonempty [of s] by (cases "split_nl s") auto
  with Cons show ?case by (cases ls) auto
qed

lemma split_nl_no_nl: "10 \<notin> set s \<Longrightarrow> split_nl s = [s]"
  by (induction s) auto

lemma split_nl_line: "10 \<notin> set l \<Longrightarrow> split_nl (l @ 10 # s) = l # split_nl s"
  by (induction l) auto

lemma split_nl_stream_of:
  "list_all newline_free ls \<Longrightarrow> newline_free rest \<Longrightarrow> split_nl (stream_of ls rest) = ls @ [rest]"
proof (induction ls)
  case Nil
  then show ?case by (simp add: stream_of_def newline_free_def split_nl_no_nl)
next
  case (Cons l ls)
  then have "split_nl (stream_of ls rest) = ls @ [rest]" by simp
  moreover have "stream_of (l # ls) rest = l @ 10 # stream_of ls rest"
    by (simp add: stream_of_def)
  moreover have "10 \<notin> set l" using Cons.prems(1) by (simp add: newline_free_def)
  ultimately show ?case by (simp add: split_nl_line)
qed

lemma complete_lines_stream_of:
  "list_all newline_free ls \<Longrightarrow> newline_free rest \<Longrightarrow> complete_lines (stream_of ls rest) = ls"
  by (simp add: complete_lines_def split_nl_stream_of)

text \<open>The loop, started with any buffer free of newlines, handles the complete lines of
  the buffer followed by all chunks, whatever the chunk boundaries are.\<close>

lemma read_loop_buffer:
  "10 \<notin> set buffer \<Longrightarrow>
   read_loop f buffer st chunks = foldl f st (complete_lines (buffer @ concat chunks))"
proof (induction chunks arbitrary: buffer st)
  case Nil
  then show ?case by (simp add: complete_lines_def split_nl_no_nl)
next
  case (Cons chunk chunks)
  let ?lines = "split_nl (buffer @ chunk)"
  have "split_nl ((buffer @ chunk) @ concat chunks) =
        butlast ?lines @ split_nl (last ?lines @ concat chunks)"
    by (rule split_nl_append)
  moreover have "split_nl (last ?lines @ concat chunks) \<noteq> []"
    by (rule split_nl_nonempty)
  ultimately have "complete_lines (buffer @ chunk @ concat chunks) =
        butlast ?lines @ complete_lines (last ?lines @ concat chunks)"
    by (simp add: complete_lines_def butlast_append)
  then show ?case
    using Cons.IH [OF last_split_no_nl, of "buffer @ chunk"]
    by (simp add: Let_def)
qed

lemma foldl_process_line:
  "foldl (process_line parse handle) st ls = foldl handle st (stream_events parse ls)"
proof (induction ls arbitrary: st)
  case Nil
  show ?case by (simp add: stream_events_def map_filter_simps)
next
  case (Cons l ls)
  have "stream_events parse (l # ls) =
        (case (if is_data_line l then parse (payload l) else None) of
           None \<Rightarrow> stream_events parse ls | Some e \<Rightarrow> e # stream_events parse ls)"
    unfolding stream_events_def by (simp add: map_filter_simps)
  then show ?case
    using Cons.IH by (simp add: process_line_def split: option.splits)
qed

lemma foldl_append_singleton: "foldl (\<lambda>log x. log @ [x]) init xs = init @ xs"
  by (induction xs arbitrary: init) auto

lemma trim_empty: "trim [] = []"
  by (simp add: trim_def)

lemma trim_skip: "trim (js ''skip'') = js ''skip''"
  by (simp add: trim_def js_def strippable_def is_white_space_def is_line_terminator_def)

lemma trim_grow: "trim (js ''grow'') = js ''grow''"
  by (simp add: trim_def js_def strippable_def is_white_space_def is_line_terminator_def)

section \<open>The event tags (C3)\<close>

lemma SSEEventType_UNIV: "set all_event_types = UNIV"
proof -
  have "x \<in> set all_event_types" for x
    by (cases x) (simp_all add: all_event_types_def)
  then show ?thesis by blast
qed

lemma map_tag_of: "map tag_of all_event_types = sse_event_type_tags"
  by (simp add: all_event_types_def sse_event_type_tags_def)

lemma range_tag_of: "range tag_of = set sse_event_type_tags"
  using SSEEventType_UNIV map_tag_of by (metis image_set)

text \<open>
  C3, as stated, fails: \<^verbatim>\<open>SSEEventType\<close> has the members \<^verbatim>\<open>agent_reasoning\<close> and
  \<^verbatim>\<open>synthesis_start\<close>, which are not among the eight tags of the specification, and it
  has no member \<^verbatim>\<open>orchestration\<close>, which is.
\<close>

theorem event_type_not_the_eight_tags:
  "tag_of Agent_reasoning \<notin> set chat_event_tags \<and>
   tag_of Synthesis_start \<notin> set chat_event_tags \<and>
   js ''orchestration'' \<in> set chat_event_tags \<and>
   js ''orchestration'' \<notin> range tag_of"
  unfolding range_tag_of
  by (simp add: chat_event_tags_def sse_event_type_tags_def js_def)

text \<open>
  C3, amended: the event type of the hook keyed by session id is the closed union of the
  nine tags routing, agent_reasoning, agent_response, synthesis_start, synthesis,
  onboarding_question, onboarding_complete, done and error, each member standing for a
  tag of its own. The hook keyed by auth token takes an event with any tag; it adds one
  message for the tags orchestration, routing, agent_response and synthesis and none for
  any other.
\<close>

theorem event_type_is_nine_tags:
  "set all_event_types = UNIV \<and>
   map tag_of all_event_types = sse_event_type_tags \<and>
   distinct sse_event_type_tags \<and>
   length sse_event_type_tags = 9 \<and>
   length (handle_event_tok prev e) =
     length prev + (if et_type e \<in> Some ` set rendered_tags_tok then 1 else 0)"
proof -
  have "distinct sse_event_type_tags"
    by (simp add: sse_event_type_tags_def js_def)
  moreover have "length (handle_event_tok prev e) =
     length prev + (if et_type e \<in> Some ` set rendered_tags_tok then 1 else 0)"
    by (auto simp: handle_event_tok_def rendered_tags_tok_def)
  ultimately show ?thesis
    using SSEEventType_UNIV map_tag_of by (simp add: sse_event_type_tags_def)
qed

section \<open>Onboarding answers (C4, C5)\<close>

lemma ob_lines_keeps:
  "ob_context (fst (ob_lines parse st ls)) = ob_context st \<and>
   ob_history (fst (ob_lines parse st ls)) = ob_history st"
  by (induction ls arbitrary: st) (auto simp: show_question_def split: option.splits)

lemma ob_read_keeps:
  "ob_context (fst (ob_read parse buf st cs)) = ob_context st \<and>
   ob_history (fst (ob_read parse buf st cs)) = ob_history st"
proof (induction cs arbitrary: buf st)
  case Nil
  show ?case by simp
next
  case (Cons c cs)
  obtain st' b where r: "ob_lines parse st (butlast (split_nl (buf @ c))) = (st', b)"
    by (cases "ob_lines parse st (butlast (split_nl (buf @ c)))")
  have keep: "ob_context st' = ob_context st \<and> ob_history st' = ob_history st"
    using ob_lines_keeps [of parse st "butlast (split_nl (buf @ c))"] r by simp
  show ?case
    using r keep Cons.IH [of "last (split_nl (buf @ c))" st'] by (cases b) (simp_all add: Let_def)
qed

text \<open>An answer that is not blank after trimming is recorded under the field of the
  question on show, and posted.\<close>

lemma submit_records:
  assumes "ob_currentQuestion s = Some q" "\<not> ob_isAnimating s" "trim v \<noteq> []"
  shows "ob_context (sr_state (submit parse s v net)) = (ob_context s)(q_field q \<mapsto> trim v)"
    and "ob_history (sr_state (submit parse s v net)) = ob_history s @ [(q_question q, trim v)]"
    and "sr_posted (submit parse s v net) = Some (trim v)"
  using assms ob_read_keeps
  by (auto simp: submit_def Let_def split: net_response.splits)

text \<open>A blank answer records nothing and posts the word skip.\<close>

lemma submit_blank:
  assumes "ob_currentQuestion s = Some q" "\<not> ob_isAnimating s" "trim v = []"
  shows "ob_context (sr_state (submit parse s v net)) = ob_context s"
    and "ob_history (sr_state (submit parse s v net)) = ob_history s"
    and "sr_posted (submit parse s v net) = Some (js ''skip'')"
  using assms ob_read_keeps
  by (auto simp: submit_def Let_def split: net_response.splits)

text \<open>Whenever \<^verbatim>\<open>submit\<close> calls \<^verbatim>\<open>onComplete\<close>, it passes the context of the render that
  created it.\<close>

lemma submit_onComplete:
  "sr_onComplete (submit parse s v net) = Some c \<Longrightarrow> c = ob_context s"
  by (auto simp: submit_def Let_def split: option.splits if_splits)

text \<open>
  C4 at the skip button: on the first question, with nothing answered, the button
  records the answer skip under the field of the question and in the history, whatever
  the server replies. Pressing Enter on the empty input posts the same word and records
  nothing.
\<close>

theorem skip_button_records_skip:
  "ob_context (sr_state (click_skip parse (asking company_question) net)) (js ''company_name'') =
     Some (js ''skip'') \<and>
   ob_history (sr_state (click_skip parse (asking company_question) net)) =
     [(js ''What is your company called?'', js ''skip'')] \<and>
   sr_posted (click_skip parse (asking company_question) net) = Some (js ''skip'') \<and>
   ob_context (sr_state (press_enter parse (asking company_question) net)) (js ''company_name'') =
     None \<and>
   ob_history (sr_state (press_enter parse (asking company_question) net)) = [] \<and>
   sr_posted (press_enter parse (asking company_question) net) = Some (js ''skip'')"
proof -
  let ?s = "asking company_question"
  have q: "ob_currentQuestion ?s = Some company_question" and a: "\<not> ob_isAnimating ?s"
    and c: "ob_context ?s = Map.empty" and h: "ob_history ?s = []" and i: "ob_inputValue ?s = []"
    by (simp_all add: asking_def initial_onboarding_def)
  have t: "trim (js ''skip'') \<noteq> []" by (simp add: trim_skip) (simp add: js_def)
  have f: "q_field company_question = js ''company_name''"
    and n: "q_question company_question = js ''What is your company called?''"
    by (simp_all add: company_question_def)
  have e: "trim (ob_inputValue ?s) = []" by (simp add: i trim_empty)
  show ?thesis
    unfolding click_skip_def press_enter_def
    using submit_records [OF q a t, of parse net] submit_blank [OF q a e, of parse net]
    by (simp add: trim_skip f n c h)
qed

text \<open>
  C5 at the last step: the name was answered before, the answer grow is submitted to the
  last question and the server replies \<^verbatim>\<open>onboarding_complete\<close>. The context passed to
  \<^verbatim>\<open>onComplete\<close> holds the name only; the answer to the last question is in the state of
  the component, not in the map handed over.
\<close>

theorem final_answer_not_handed_over:
  "sr_onComplete (submit completing last_step (js ''grow'') one_line) =
     Some [js ''name'' \<mapsto> js ''Ada''] \<and>
   [js ''name'' \<mapsto> js ''Ada''] (js ''goals'') = None \<and>
   sr_posted (submit completing last_step (js ''grow'') one_line) = Some (js ''grow'') \<and>
   ob_context (sr_state (submit completing last_step (js ''grow'') one_line)) (js ''goals'') =
     Some (js ''grow'')"
proof -
  have q: "ob_currentQuestion last_step = Some goals_question"
    and a: "\<not> ob_isAnimating last_step"
    and c: "ob_context last_step = [js ''name'' \<mapsto> js ''Ada'']"
    by (simp_all add: last_step_def asking_def initial_onboarding_def)
  have t: "trim (js ''grow'') \<noteq> []" by (simp add: trim_grow) (simp add: js_def)
  have sp: "split_nl (js ''data: {}'' @ [10]) = [js ''data: {}'', []]"
    by (simp add: js_def)
  have d: "is_data_line (js ''data: {}'')"
    by (simp add: is_data_line_def js_def)
  have "sr_onComplete (submit completing last_step (js ''grow'') one_line) =
        Some (ob_context last_step)"
    using q a d
    by (simp add: submit_def Let_def one_line_def sp completing_def event_of_def)
  moreover have "[js ''name'' \<mapsto> js ''Ada''] (js ''goals'') = None"
    by (simp add: js_def)
  moreover have "q_field goals_question = js ''goals''"
    by (simp add: goals_question_def)
  ultimately show ?thesis
    using submit_records(1,3) [OF q a t, of completing one_line]
    by (simp add: c trim_grow)
qed

section \<open>The shell after onboarding (C6)\<close>













section \<open>The order of agent messages (C7)\<close>








section \<open>The guard of \<^verbatim>\<open>sendMessage\<close> (C8)\<close>




section \<open>Chunk boundaries (C9)\<close>

text \<open>
  C9: the stream is the lines \<open>ls\<close>, each ended by a newline, followed by a rest without
  newline, and it arrives cut into the chunks \<open>chunks\<close> at any places. Then the read loop
  runs the body of its \<^verbatim>\<open>for\<close> loop on each line of \<open>ls\<close> once, in order, whatever the
  body is; and with the body of the chat hooks the state it leaves is the one the
  handler reaches over the events of those lines that carry the prefix and a payload
  that parses, every other line skipped. A call of \<^verbatim>\<open>sendMessage\<close> of either hook that
  reaches the loop leaves the messages so obtained.
\<close>

theorem stream_read_whatever_the_chunks:
  "concat chunks = stream_of ls rest \<and> list_all newline_free ls \<and> newline_free rest \<longrightarrow>
     read_loop f [] st chunks = foldl f st ls \<and>
     read_loop (process_line parse handle) [] st' chunks =
       foldl handle st' (stream_events parse ls) \<and>
     (\<not> hs_isStreaming g \<longrightarrow>
        res_messages (sendMessage_sid parse_sid sid g text (Stream chunks)) =
          foldl handle_event_sid
            (if trim text \<noteq> [] then hs_messages g @ [blank_message User_sid text]
             else hs_messages g)
            (stream_events parse_sid ls)) \<and>
     (trim text \<noteq> [] \<and> \<not> ht_isStreaming h \<and> truthy (ht_token h) \<longrightarrow>
        res_messages (sendMessage_tok parse_tok h text (Response_tok hdr True (Some (Body chunks False)))) =
          foldl handle_event_tok (ht_messages h @ [plain_message User_tok (Some text)])
            (stream_events parse_tok ls))"
proof (intro impI)
  assume a: "concat chunks = stream_of ls rest \<and> list_all newline_free ls \<and> newline_free rest"
  have loop: "read_loop k [] s chunks = foldl k s ls" for k :: "'x \<Rightarrow> jsstring \<Rightarrow> 'x" and s
    using read_loop_buffer [of "[]" k s chunks] a complete_lines_stream_of [of ls rest]
    by simp
  show "read_loop f [] st chunks = foldl f st ls \<and>
     read_loop (process_line parse handle) [] st' chunks =
       foldl handle st' (stream_events parse ls) \<and>
     (\<not> hs_isStreaming g \<longrightarrow>
        res_messages (sendMessage_sid parse_sid sid g text (Stream chunks)) =
          foldl handle_event_sid
            (if trim text \<noteq> [] then hs_messages g @ [blank_message User_sid text]
             else hs_messages g)
            (stream_events parse_sid ls)) \<and>
     (trim text \<noteq> [] \<and> \<not> ht_isStreaming h \<and> truthy (ht_token h) \<longrightarrow>
        res_messages (sendMessage_tok parse_tok h text (Response_tok hdr True (Some (Body chunks False)))) =
          foldl handle_event_tok (ht_messages h @ [plain_message User_tok (Some text)])
            (stream_events parse_tok ls))"
    by (simp add: loop foldl_process_line sendMessage_sid_def sendMessage_tok_def Let_def)
qed
text \<open>
  C9 at concrete inputs: the lines \<^verbatim>\<open>data: a\<close>, \<^verbatim>\<open>x\<close> and \<^verbatim>\<open>data: b\<close> and the rest
  \<^verbatim>\<open>tail\<close> arrive in three chunks that cut the first newline off its line and the
  third line in two. Only the payload \<^verbatim>\<open>a\<close> parses. The loop meets the three lines in
  order, and each hook shows the user message and the one answer.
\<close>

theorem stream_read_whatever_the_chunks_witness:
  "concat three_chunks = stream_of three_lines (js ''tail'') \<and>
   list_all newline_free three_lines \<and> newline_free (js ''tail'') \<and>
   read_loop (\<lambda>log l. log @ [l]) [] [] three_chunks = three_lines \<and>
   read_loop (process_line only_a (\<lambda>log e. log @ [e])) [] [] three_chunks =
     [agent_response_event (js ''CEO'') (js ''c'')] \<and>
   res_messages (sendMessage_sid only_a (js ''s1'') \<lparr>hs_messages = [], hs_isStreaming = False\<rparr>
       (js ''hi'') (Stream three_chunks)) =
     [blank_message User_sid (js ''hi''),
      agent_message (agent_response_event (js ''CEO'') (js ''c''))] \<and>
   res_messages (sendMessage_tok only_a_tok
       \<lparr>ht_messages = [], ht_isStreaming = False, ht_sessionId = None, ht_token = Some (js ''t'')\<rparr>
       (js ''hi'') (Response_tok None True (Some (Body three_chunks False)))) =
     [plain_message User_tok (Some (js ''hi'')),
      agent_message_tok (event_tok_of (js ''agent_response''))]"
proof -
  have c: "concat three_chunks = stream_of three_lines (js ''tail'')"
    by (simp add: three_chunks_def three_lines_def stream_of_def js_def)
  have n: "list_all newline_free three_lines" "newline_free (js ''tail'')"
    by (simp_all add: three_lines_def newline_free_def js_def)
  have t: "trim (js ''hi'') = js ''hi''"
    by (simp add: trim_def js_def strippable_def is_white_space_def is_line_terminator_def)
  have ne: "js ''hi'' \<noteq> []" "js ''t'' \<noteq> []"
    by (simp_all add: js_def)
  have e: "stream_events only_a three_lines = [agent_response_event (js ''CEO'') (js ''c'')]"
    by (simp add: stream_events_def map_filter_simps three_lines_def only_a_def is_data_line_def
        payload_def js_def)
  have e': "stream_events only_a_tok three_lines = [event_tok_of (js ''agent_response'')]"
    by (simp add: stream_events_def map_filter_simps three_lines_def only_a_tok_def
        is_data_line_def payload_def js_def)
  have h: "handle_event_sid [blank_message User_sid (js ''hi'')]
             (agent_response_event (js ''CEO'') (js ''c'')) =
           [blank_message User_sid (js ''hi''),
            agent_message (agent_response_event (js ''CEO'') (js ''c''))]"
    by (simp add: handle_event_sid_def update_or_add_def same_agent_def blank_message_def
        agent_response_event_def event_of_def js_def)
  have h': "handle_event_tok [plain_message User_tok (Some (js ''hi''))]
              (event_tok_of (js ''agent_response'')) =
            [plain_message User_tok (Some (js ''hi'')),
             agent_message_tok (event_tok_of (js ''agent_response''))]"
    by (simp add: handle_event_tok_def event_tok_of_def js_def)
  show ?thesis
    using stream_read_whatever_the_chunks
      [of three_chunks three_lines "js ''tail''" "\<lambda>log l. log @ [l]" "[]"
          only_a "\<lambda>log e. log @ [e]" "[]"
          "\<lparr>hs_messages = [], hs_isStreaming = False\<rparr>" only_a "js ''s1''" "js ''hi''"
          "\<lparr>ht_messages = [], ht_isStreaming = False, ht_sessionId = None,
            ht_token = Some (js ''t'')\<rparr>"
          only_a_tok None]
      c n t ne e e' h h'
    by (simp add: foldl_append_singleton)
qed

section \<open>Tags in rendered markdown (C10)\<close>

text \<open>The scan of a global replace, unfolded once.\<close>

lemma replace_all_None:
  "m bol s = None \<Longrightarrow>
   replace_all m bol s = (case s of [] \<Rightarrow> [] | c # r \<Rightarrow> c # replace_all m (is_line_terminator c) r)"
  by (subst replace_all.simps) simp

lemma replace_all_Some:
  "m bol s = Some (rep, n) \<Longrightarrow> 0 < n \<Longrightarrow> n \<le> length s \<Longrightarrow>
   replace_all m bol s = rep @ replace_all m (is_line_terminator (s ! (n - 1))) (drop n s)"
  by (subst replace_all.simps) simp

lemma walk_inside:
  assumes k: "keeps t m" and lt: "\<forall>c\<in>set t. \<not> is_line_terminator c"
  shows "t = t1 @ t2 \<Longrightarrow> t1 \<noteq> [] \<Longrightarrow> prefix t2 s \<Longrightarrow> prefix t2 (replace_all m False s)"
proof (induction t2 arbitrary: t1 s)
  case Nil
  show ?case by simp
next
  case (Cons c t2)
  from Cons.prems(3) obtain s' where s: "s = c # s'" and p: "prefix t2 s'"
    by (cases s) auto
  have "m False s = None"
    using k Cons.prems unfolding keeps_def by blast
  then have out: "replace_all m False s = c # replace_all m (is_line_terminator c) s'"
    using s by (simp add: replace_all_None)
  have "c \<in> set t" using Cons.prems(1) by simp
  then have nl: "\<not> is_line_terminator c" using lt by blast
  have "prefix t2 (replace_all m False s')"
    using Cons.IH [of "t1 @ [c]" s'] Cons.prems(1) p by simp
  then show ?case using out nl by simp
qed

lemma replace_all_keeps:
  assumes k: "keeps t m" and lt: "\<forall>c\<in>set t. \<not> is_line_terminator c"
  shows "sublist t s \<Longrightarrow> sublist t (replace_all m bol s)"
proof (induction s arbitrary: bol rule: length_induct)
  case (1 s)
  show ?case
  proof (cases "m bol s")
    case None
    show ?thesis
    proof (cases s)
      case Nil
      with "1.prems" show ?thesis by simp
    next
      case (Cons c r)
      have out: "replace_all m bol s = c # replace_all m (is_line_terminator c) r"
        using None Cons by (simp add: replace_all_None)
      from "1.prems" Cons have "prefix t (c # r) \<or> sublist t r"
        by (simp add: sublist_Cons_right)
      then show ?thesis
      proof
        assume pre: "prefix t (c # r)"
        show ?thesis
        proof (cases t)
          case Nil
          then show ?thesis by simp
        next
          case (Cons d t')
          with pre have d: "d = c" and p: "prefix t' r" by auto
          have "\<not> is_line_terminator c" using lt Cons d by simp
          moreover have "prefix t' (replace_all m False r)"
            using walk_inside [OF k lt, of "[d]" t' r] Cons p by simp
          ultimately have "prefix t (replace_all m bol s)"
            using out Cons d by simp
          then show ?thesis by (rule prefix_imp_sublist)
        qed
      next
        assume "sublist t r"
        then have "sublist t (replace_all m (is_line_terminator c) r)"
          using "1.IH" Cons by simp
        then show ?thesis using out by (simp add: sublist_Cons_right)
      qed
    qed
  next
    case (Some x)
    obtain rep n where x: "x = (rep, n)" by (cases x)
    have m: "m bol s = Some (rep, n)" using Some x by simp
    have n: "0 < n" "n \<le> length s"
      and inside: "sublist t (take n s) \<Longrightarrow> sublist t rep"
      and ns: "\<not> straddles t (take n s) (drop n s)"
      using k m unfolding keeps_def by blast+
    have out: "replace_all m bol s =
        rep @ replace_all m (is_line_terminator (s ! (n - 1))) (drop n s)"
      using m n by (rule replace_all_Some)
    have rest: "sublist t (drop n s) \<Longrightarrow> ?thesis"
    proof -
      assume "sublist t (drop n s)"
      moreover have "length (drop n s) < length s" using n by simp
      ultimately have "sublist t (replace_all m (is_line_terminator (s ! (n - 1))) (drop n s))"
        using "1.IH" by blast
      then show ?thesis using out by (simp add: sublist_append)
    qed
    have "sublist t (take n s @ drop n s)" using "1.prems" by simp
    then consider "sublist t (take n s)" | "sublist t (drop n s)"
      | t1 t2 where "t = t1 @ t2" "suffix t1 (take n s)" "prefix t2 (drop n s)"
      unfolding sublist_append by blast
    then show ?thesis
    proof cases
      case 1
      then show ?thesis using inside out by (simp add: sublist_append)
    next
      case 2
      then show ?thesis by (rule rest)
    next
      case (3 t1 t2)
      show ?thesis
      proof (cases "t1 = []")
        case True
        with 3 have "sublist t (drop n s)" by (simp add: prefix_imp_sublist)
        then show ?thesis by (rule rest)
      next
        case False
        show ?thesis
        proof (cases "t2 = []")
          case True
          with 3 have "sublist t (take n s)" by (simp add: suffix_imp_sublist)
          then show ?thesis using inside out by (simp add: sublist_append)
        next
          case t2: False
          have "straddles t (take n s) (drop n s)"
            unfolding straddles_def using 3 False t2 by blast
          with ns show ?thesis by simp
        qed
      qed
    qed
  qed
qed

text \<open>Occurrences of a list inside a concatenation.\<close>

lemma sublist_drop_left:
  assumes "sublist t (a @ b)" "t \<noteq> []" "hd t \<notin> set a"
  shows "sublist t b"
proof -
  from assms(1) consider "sublist t a" | "sublist t b"
    | t1 t2 where "t = t1 @ t2" "suffix t1 a" "prefix t2 b"
    unfolding sublist_append by blast
  then show ?thesis
  proof cases
    case 1
    then have "set t \<subseteq> set a" by (rule set_mono_sublist)
    with assms(2,3) show ?thesis by (cases t) auto
  next
    case 2
    then show ?thesis .
  next
    case (3 t1 t2)
    show ?thesis
    proof (cases t1)
      case Nil
      with 3 show ?thesis by (simp add: prefix_imp_sublist)
    next
      case (Cons c t1')
      with 3 have "hd t = c" "c \<in> set a"
        using set_mono_suffix [of t1 a] by auto
      with assms(3) show ?thesis by simp
    qed
  qed
qed

lemma sublist_drop_right:
  assumes "sublist t (a @ b)" "t \<noteq> []" "last t \<notin> set b"
  shows "sublist t a"
proof -
  have "sublist (rev t) (rev b @ rev a)"
    using assms(1) by (metis rev_append sublist_rev)
  moreover have "rev t \<noteq> []" "hd (rev t) \<notin> set (rev b)"
    using assms(2,3) by (simp_all add: hd_rev)
  ultimately have "sublist (rev t) (rev a)" by (rule sublist_drop_left)
  then show ?thesis by simp
qed

lemma plain_tag_shape:
  assumes "plain_tag t"
  obtains body where "t = 60 # body @ [62]"
    and "\<forall>c\<in>set body. c \<noteq> 60 \<and> c \<noteq> 62 \<and> c \<noteq> 42 \<and> \<not> is_line_terminator c"
proof -
  from assms obtain r where t: "t = 60 # r" and r: "r \<noteq> []" "last r = 62"
    and b: "list_all (\<lambda>c. c \<noteq> 60 \<and> c \<noteq> 62 \<and> c \<noteq> 42 \<and> \<not> is_line_terminator c) (butlast r)"
    by (auto simp: plain_tag_def split: list.splits)
  have "r = butlast r @ [62]" using r by (metis append_butlast_last_id)
  with t b that [of "butlast r"] show thesis by (simp add: list_all_iff)
qed

lemma plain_tag_facts:
  assumes "plain_tag t"
  shows "t \<noteq> []" "hd t = 60" "last t = 62" "42 \<notin> set t"
    and "\<forall>c\<in>set t. \<not> is_line_terminator c"
    and "\<And>t1 t2. t = t1 @ t2 \<Longrightarrow> t1 \<noteq> [] \<Longrightarrow> 60 \<notin> set t2"
    and "\<And>t1 t2. t = t1 @ t2 \<Longrightarrow> t2 \<noteq> [] \<Longrightarrow> 62 \<notin> set t1"
proof -
  from assms obtain body where t: "t = 60 # body @ [62]"
    and b: "\<forall>c\<in>set body. c \<noteq> 60 \<and> c \<noteq> 62 \<and> c \<noteq> 42 \<and> \<not> is_line_terminator c"
    by (rule plain_tag_shape)
  show "t \<noteq> []" "hd t = 60" "last t = 62" using t by simp_all
  show "42 \<notin> set t" using t b by auto
  show "\<forall>c\<in>set t. \<not> is_line_terminator c"
    using t b by (auto simp: is_line_terminator_def)
  show "60 \<notin> set t2" if "t = t1 @ t2" "t1 \<noteq> []" for t1 t2
  proof -
    from that obtain t1' where "t1 = 60 # t1'" "body @ [62] = t1' @ t2"
      using t by (cases t1) auto
    then have "set t2 \<subseteq> set (body @ [62])" by (metis set_append sup_ge2)
    then show ?thesis using b by auto
  qed
  show "62 \<notin> set t1" if "t = t1 @ t2" "t2 \<noteq> []" for t1 t2
  proof -
    from that(2) have "t2 = butlast t2 @ [last t2]" by simp
    with that(1) t have "60 # body @ [62] = (t1 @ butlast t2) @ [last t2]" by simp
    then have "60 # body = t1 @ butlast t2" by (metis append_Cons butlast_snoc)
    then have "set t1 \<subseteq> set (60 # body)" by (metis set_append sup_ge1)
    then show ?thesis using b by auto
  qed
qed

text \<open>Each of the regular expressions of \<^verbatim>\<open>renderMarkdown\<close> keeps a plain tag.\<close>

lemma lazy_group_Some:
  "lazy_group d r = Some g \<Longrightarrow> g \<noteq> [] \<and> prefix (g @ d) r"
proof (induction r arbitrary: g)
  case Nil
  then show ?case by simp
next
  case (Cons c r)
  show ?case
  proof (cases "prefix d r")
    case True
    with Cons.prems show ?thesis by (auto split: if_splits)
  next
    case False
    with Cons.prems obtain g' where g: "lazy_group d r = Some g'" "g = c # g'"
      by (auto split: if_splits)
    with Cons.IH [of g'] show ?thesis by simp
  qed
qed

lemma m_delimited_Some:
  assumes "m_delimited d opn cls bol s = Some (rep, n)"
  obtains g where "g \<noteq> []" "rep = opn @ g @ cls" "n = length d + length g + length d"
    "take n s = d @ g @ d" "n \<le> length s"
proof -
  from assms obtain g where p: "prefix d s" and g: "lazy_group d (drop (length d) s) = Some g"
    and r: "rep = opn @ g @ cls" "n = length d + length g + length d"
    by (auto simp: m_delimited_def split: if_splits option.splits)
  from lazy_group_Some [OF g] have ne: "g \<noteq> []" and q: "prefix (g @ d) (drop (length d) s)"
    by simp_all
  from p obtain s1 where s1: "s = d @ s1" by (auto simp: prefix_def)
  with q obtain s2 where s2: "s1 = g @ d @ s2" by (auto simp: prefix_def)
  have "take n s = d @ g @ d" "n \<le> length s"
    using s1 s2 r(2) by simp_all
  with ne r that show thesis by blast
qed

lemma keeps_delimited:
  assumes t: "plain_tag t" and d: "d \<noteq> []" "set d = {42}"
  shows "keeps t (m_delimited d opn cls)"
  unfolding keeps_def
proof (intro conjI allI impI)
  fix bol s rep n
  assume m: "m_delimited d opn cls bol s = Some (rep, n)"
  then obtain g where g: "g \<noteq> []" "rep = opn @ g @ cls" "n = length d + length g + length d"
    "take n s = d @ g @ d" "n \<le> length s"
    by (rule m_delimited_Some)
  show "0 < n" using g(1,3) by simp
  show "n \<le> length s" by (rule g(5))
  show "sublist t rep" if "sublist t (take n s)"
  proof -
    have "sublist t (d @ g @ d)" using that g(4) by simp
    then have "sublist t (g @ d)"
      using plain_tag_facts(1,2) [OF t] d(2) by (auto intro: sublist_drop_left)
    then have "sublist t g"
      using plain_tag_facts(1,3) [OF t] d(2) by (auto intro: sublist_drop_right)
    then show ?thesis using g(2) by (simp add: sublist_append)
  qed
  show "\<not> straddles t (take n s) (drop n s)"
  proof
    assume "straddles t (take n s) (drop n s)"
    then obtain t1 t2 where s: "t = t1 @ t2" "t1 \<noteq> []" "suffix t1 (d @ g @ d)"
      unfolding straddles_def g(4) by blast
    have "last t1 = last (d @ g @ d)"
      using s(2,3) by (auto simp: suffix_def)
    also have "\<dots> = last d" using d(1) by simp
    finally have "last t1 = 42" using d by (metis last_in_set singletonD)
    then have "42 \<in> set t" using s(1,2) by (metis last_in_set set_append UnI1)
    then show False using plain_tag_facts(4) [OF t] by simp
  qed
next
  fix s t1 t2
  assume a: "t = t1 @ t2 \<and> t1 \<noteq> [] \<and> t2 \<noteq> [] \<and> prefix t2 s"
  then have "hd s = hd t2" "hd t2 \<in> set t" "s \<noteq> []"
    by (auto simp: prefix_def)
  then have "hd s \<noteq> 42" using plain_tag_facts(4) [OF t] by auto
  moreover have "hd s = 42" if "prefix d s"
    using that d by (metis hd_append2 hd_in_set prefix_def singletonD)
  ultimately show "m_delimited d opn cls False s = None"
    by (auto simp: m_delimited_def)
qed

lemma after_line:
  assumes "prefix t2 (dropWhile dot_char r)" "t2 \<noteq> []"
  shows "is_line_terminator (hd t2)"
proof -
  from assms obtain c rest where d: "dropWhile dot_char r = c # rest"
    by (cases "dropWhile dot_char r") auto
  then have "\<not> dot_char c"
    using hd_dropWhile [of dot_char r] by simp
  moreover have "hd t2 = c"
    using assms d by (cases t2) auto
  ultimately show ?thesis by (simp add: dot_char_def)
qed

lemma hd_not_in_sublist:
  assumes "sublist t xs" "t \<noteq> []" "hd t \<notin> set xs"
  shows False
proof -
  have "set t \<subseteq> set xs" using assms(1) by (rule set_mono_sublist)
  moreover have "hd t \<in> set t" using assms(2) by simp
  ultimately show False using assms(3) by blast
qed

lemma no_straddle_line_end:
  assumes t: "plain_tag t" and d: "drop n s = dropWhile dot_char r"
  shows "\<not> straddles t (take n s) (drop n s)"
proof
  assume "straddles t (take n s) (drop n s)"
  then obtain t1 t2 where s: "t = t1 @ t2" "t2 \<noteq> []" "prefix t2 (dropWhile dot_char r)"
    unfolding straddles_def d by blast
  then have "is_line_terminator (hd t2)" by (simp add: after_line)
  moreover have "hd t2 \<in> set t" using s(1,2) by simp
  ultimately show False using plain_tag_facts(5) [OF t] by blast
qed

lemma keeps_line_prefix:
  assumes t: "plain_tag t" and p: "60 \<notin> set pre"
  shows "keeps t (m_line_prefix pre opn cls)"
  unfolding keeps_def
proof (intro conjI allI impI)
  fix bol s rep n
  assume m: "m_line_prefix pre opn cls bol s = Some (rep, n)"
  define line where "line = takeWhile dot_char (drop (length pre) s)"
  from m have pre: "prefix pre s" and ne: "line \<noteq> []"
    and r: "rep = opn @ line @ cls" "n = length pre + length line"
    by (auto simp: m_line_prefix_def Let_def line_def split: if_splits)
  from pre obtain s1 where s1: "s = pre @ s1" by (auto simp: prefix_def)
  have "line = takeWhile dot_char s1" using s1 by (simp add: line_def)
  then have "s1 = line @ dropWhile dot_char s1" by simp
  then have s2: "s = (pre @ line) @ dropWhile dot_char s1" using s1 by simp
  have n': "n = length (pre @ line)" using r(2) by simp
  have tk: "take n s = pre @ line"
    unfolding n' by (subst s2) simp
  have dr: "drop n s = dropWhile dot_char s1"
    unfolding n' by (subst s2) simp
  show "0 < n" using ne r(2) by simp
  show "n \<le> length s"
    unfolding n' by (subst s2) simp
  show "sublist t rep" if "sublist t (take n s)"
  proof -
    have "sublist t line"
      using that tk plain_tag_facts(1,2) [OF t] p by (auto intro: sublist_drop_left)
    then show ?thesis using r(1) by (simp add: sublist_append)
  qed
  show "\<not> straddles t (take n s) (drop n s)"
    using t dr by (rule no_straddle_line_end)
next
  fix s t1 t2
  show "m_line_prefix pre opn cls False s = None"
    by (simp add: m_line_prefix_def)
qed

lemma keeps_line: "plain_tag t \<Longrightarrow> keeps t m_line"
  unfolding keeps_def
proof (intro conjI allI impI)
  fix bol s rep n
  assume t: "plain_tag t" and m: "m_line bol s = Some (rep, n)"
  then have ne: "takeWhile dot_char s \<noteq> []"
    and r: "rep = takeWhile dot_char s" "n = length (takeWhile dot_char s)"
    by (auto simp: m_line_def Let_def split: if_splits)
  have tk: "take n s = rep" unfolding r by (rule takeWhile_eq_take [symmetric])
  have dr: "drop n s = dropWhile dot_char s" unfolding r by (rule dropWhile_eq_drop [symmetric])
  show "0 < n" using ne r(2) by simp
  show "n \<le> length s" using r(2) by (simp add: length_takeWhile_le)
  show "sublist t rep" if "sublist t (take n s)" using that tk by simp
  show "\<not> straddles t (take n s) (drop n s)"
    using t dr by (rule no_straddle_line_end)
next
  fix s t1 t2
  show "m_line False s = None" by (simp add: m_line_def)
qed

lemma keeps_hr: "plain_tag t \<Longrightarrow> keeps t m_hr"
  unfolding keeps_def
proof (intro conjI allI impI)
  fix bol s rep n
  assume t: "plain_tag t" and m: "m_hr bol s = Some (rep, n)"
  then have p: "prefix (js ''---'') s" and n: "n = 3"
    and e: "case drop 3 s of [] \<Rightarrow> True | c # r \<Rightarrow> is_line_terminator c"
    by (auto simp: m_hr_def split: if_splits)
  from p obtain s1 where s1: "s = js ''---'' @ s1" by (auto simp: prefix_def)
  have tk: "take n s = [45, 45, 45]" using s1 n by (simp add: js_def)
  show "0 < n" using n by simp
  show "n \<le> length s" using s1 n by (simp add: js_def)
  show "sublist t rep" if "sublist t (take n s)"
  proof -
    have "sublist t [45, 45, 45]" using that tk by simp
    then have False
      using plain_tag_facts(1,2) [OF t] by (auto dest: hd_not_in_sublist)
    then show ?thesis ..
  qed
  show "\<not> straddles t (take n s) (drop n s)"
  proof
    assume "straddles t (take n s) (drop n s)"
    then obtain t1 t2 where s: "t = t1 @ t2" "t2 \<noteq> []" "prefix t2 (drop 3 s)"
      unfolding straddles_def n by blast
    then have "is_line_terminator (hd t2)"
      using e by (cases "drop 3 s"; cases t2) auto
    moreover have "hd t2 \<in> set t" using s(1,2) by simp
    ultimately show False using plain_tag_facts(5) [OF t] by blast
  qed
next
  fix s t1 t2
  show "m_hr False s = None" by (simp add: m_hr_def)
qed

lemma keeps_par: "plain_tag t \<Longrightarrow> keeps t m_par"
  unfolding keeps_def
proof (intro conjI allI impI)
  fix bol s rep n
  assume t: "plain_tag t" and m: "m_par bol s = Some (rep, n)"
  then have p: "prefix [10, 10] s" and n: "n = 2"
    by (auto simp: m_par_def split: if_splits)
  from p obtain s1 where s1: "s = [10, 10] @ s1" by (auto simp: prefix_def)
  have tk: "take n s = [10, 10]" using s1 n by simp
  show "0 < n" using n by simp
  show "n \<le> length s" using s1 n by simp
  show "sublist t rep" if "sublist t (take n s)"
  proof -
    have "sublist t [10, 10]" using that tk by simp
    then have False
      using plain_tag_facts(1,2) [OF t] by (auto dest: hd_not_in_sublist)
    then show ?thesis ..
  qed
  show "\<not> straddles t (take n s) (drop n s)"
  proof
    assume "straddles t (take n s) (drop n s)"
    then obtain t1 t2 where s: "t = t1 @ t2" "t1 \<noteq> []" "suffix t1 [10, 10]"
      unfolding straddles_def tk by blast
    then obtain zs where "[10, 10] = zs @ t1" by (auto simp: suffix_def)
    then have "last [10, 10 :: nat] = last t1" using s(2) by (metis last_appendR)
    then have "last t1 = 10" by simp
    then have "10 \<in> set t" using s(1,2) by (metis last_in_set set_append UnI1)
    then show False
      using plain_tag_facts(5) [OF t] by (auto simp: is_line_terminator_def)
  qed
next
  fix s t1 t2
  assume t: "plain_tag t" and a: "t = t1 @ t2 \<and> t1 \<noteq> [] \<and> t2 \<noteq> [] \<and> prefix t2 s"
  then have "hd s = hd t2" "hd t2 \<in> set t" "s \<noteq> []"
    by (auto simp: prefix_def)
  then have "hd s \<noteq> 10"
    using plain_tag_facts(5) [OF t] by (auto simp: is_line_terminator_def)
  then show "m_par False s = None"
    by (cases s) (auto simp: m_par_def)
qed

lemma last_close_Some: "last_close line = Some j \<Longrightarrow> prefix (js ''</li>'') (drop j line)"
proof (induction line arbitrary: j)
  case Nil
  then show ?case by simp
next
  case (Cons c r)
  show ?case
  proof (cases "last_close r")
    case None
    with Cons.prems show ?thesis by (auto split: if_splits)
  next
    case (Some j')
    with Cons.prems have "j = Suc j'" by simp
    with Cons.IH [OF Some] show ?thesis by simp
  qed
qed

lemma li_group_Some:
  assumes "li_group s = Some n"
  shows "prefix (js ''<li>'') s" "0 < n" "n \<le> length s"
    "last (take n s) = 62 \<or> last (take n s) = 10"
proof -
  define line where "line = takeWhile dot_char (drop 4 s)"
  from assms obtain j where p: "prefix (js ''<li>'') s" and j: "last_close line = Some j"
    and n: "n = (if prefix [10] (drop (4 + j + 5) s) then 4 + j + 5 + 1 else 4 + j + 5)"
    by (auto simp: li_group_def line_def split: if_splits option.splits)
  show "prefix (js ''<li>'') s" by (rule p)
  from p obtain s1 where s1: "s = js ''<li>'' @ s1" by (auto simp: prefix_def)
  have "line = takeWhile dot_char s1" using s1 by (simp add: line_def js_def)
  then have s1': "s1 = line @ dropWhile dot_char s1" by simp
  from last_close_Some [OF j] obtain l2 where l2: "drop j line = js ''</li>'' @ l2"
    by (auto simp: prefix_def)
  then have jl: "j \<le> length line" by (cases "j \<le> length line") (auto simp: js_def)
  have line: "line = take j line @ js ''</li>'' @ l2"
    using l2 by (metis append_take_drop_id)
  define a where "a = js ''<li>'' @ take j line @ js ''</li>''"
  define b where "b = l2 @ dropWhile dot_char s1"
  have s: "s = a @ b"
    unfolding a_def b_def using s1 s1' line by (metis append.assoc)
  have la: "length a = 4 + j + 5" using jl by (simp add: a_def js_def)
  have d: "drop (4 + j + 5) s = b" using s la by simp
  have lasta: "last a = 62" by (simp add: a_def js_def)
  show "0 < n" using n by simp
  show "n \<le> length s" using n s la d by (cases b) (auto split: if_splits)
  show "last (take n s) = 62 \<or> last (take n s) = 10"
  proof (cases "prefix [10] b")
    case True
    then obtain b' where b': "b = 10 # b'" by (cases b) auto
    have "n = length (a @ [10])" using n d True la by simp
    moreover have "s = (a @ [10]) @ b'" using s b' by simp
    ultimately have "take n s = a @ [10]" by (metis append_eq_conv_conj)
    then show ?thesis by simp
  next
    case False
    then have "n = length a" using n d la by simp
    then have "take n s = a" using s by simp
    then show ?thesis using lasta by simp
  qed
qed

lemma li_groups_pos:
  "0 < li_groups s \<Longrightarrow>
   prefix (js ''<li>'') s \<and> li_groups s \<le> length s \<and>
   (last (take (li_groups s) s) = 62 \<or> last (take (li_groups s) s) = 10)"
proof (induction s rule: li_groups.induct)
  case (1 s)
  show ?case
  proof (cases "li_group s")
    case None
    with "1.prems" show ?thesis by (subst (asm) li_groups.simps) simp
  next
    case (Some n)
    note g = li_group_Some [OF Some]
    have eq: "li_groups s = n + li_groups (drop n s)"
      using Some g(2,3) by (subst li_groups.simps) simp
    show ?thesis
    proof (cases "li_groups (drop n s) = 0")
      case True
      with eq g show ?thesis by simp
    next
      case False
      then have "prefix (js ''<li>'') (drop n s) \<and> li_groups (drop n s) \<le> length (drop n s) \<and>
         (last (take (li_groups (drop n s)) (drop n s)) = 62 \<or>
          last (take (li_groups (drop n s)) (drop n s)) = 10)"
        using "1.IH" [OF Some] g(2,3) by simp
      then have k: "li_groups (drop n s) \<le> length (drop n s)"
        and l: "last (take (li_groups (drop n s)) (drop n s)) = 62 \<or>
          last (take (li_groups (drop n s)) (drop n s)) = 10"
        by simp_all
      have "take (n + li_groups (drop n s)) s = take n s @ take (li_groups (drop n s)) (drop n s)"
        by (simp add: take_add)
      moreover have "take (li_groups (drop n s)) (drop n s) \<noteq> []"
        using False k by (cases "drop n s") auto
      ultimately have "last (take (li_groups s) s) = last (take (li_groups (drop n s)) (drop n s))"
        using eq by simp
      then have l': "last (take (li_groups s) s) = 62 \<or> last (take (li_groups s) s) = 10"
        using l by simp
      moreover have "n + li_groups (drop n s) \<le> length s" using k g(3) by simp
      ultimately show ?thesis using eq g(1) l' by simp
    qed
  qed
qed

lemma keeps_ul: "plain_tag t \<Longrightarrow> keeps t m_ul"
  unfolding keeps_def
proof (intro conjI allI impI)
  fix bol s rep n
  assume t: "plain_tag t" and m: "m_ul bol s = Some (rep, n)"
  then have n: "n = li_groups s" "0 < li_groups s" and r: "rep = js ''<ul>'' @ take n s @ js ''</ul>''"
    by (auto simp: m_ul_def Let_def split: if_splits)
  note g = li_groups_pos [OF n(2)]
  show "0 < n" using n by simp
  show "n \<le> length s" using n g by simp
  show "sublist t rep" if "sublist t (take n s)"
    using that r by (simp add: sublist_append)
  show "\<not> straddles t (take n s) (drop n s)"
  proof
    assume "straddles t (take n s) (drop n s)"
    then obtain t1 t2 where s: "t = t1 @ t2" "t1 \<noteq> []" "t2 \<noteq> []" "suffix t1 (take n s)"
      unfolding straddles_def by blast
    then obtain zs where "take n s = zs @ t1" by (auto simp: suffix_def)
    then have "last (take n s) = last t1" using s(2) by (metis last_appendR)
    then have "last t1 = 62 \<or> last t1 = 10" using g n(1) by simp
    moreover have "last t1 \<in> set t1" using s(2) by simp
    moreover have "62 \<notin> set t1" using plain_tag_facts(7) [OF t s(1,3)] .
    moreover have "10 \<notin> set t1"
      using plain_tag_facts(5) [OF t] s(1) by (auto simp: is_line_terminator_def)
    ultimately show False by auto
  qed
next
  fix s t1 t2
  assume t: "plain_tag t" and a: "t = t1 @ t2 \<and> t1 \<noteq> [] \<and> t2 \<noteq> [] \<and> prefix t2 s"
  then have "hd s = hd t2" "hd t2 \<in> set t2" "s \<noteq> []"
    by (auto simp: prefix_def)
  moreover have "60 \<notin> set t2" using plain_tag_facts(6) [OF t] a by blast
  ultimately have "hd s \<noteq> 60" by auto
  then have "\<not> prefix (js ''<li>'') s" by (cases s) (auto simp: js_def)
  then have "li_groups s = 0"
    by (subst li_groups.simps) (simp add: li_group_def)
  then show "m_ul False s = None" by (simp add: m_ul_def)
qed

lemma keeps_ol: "plain_tag t \<Longrightarrow> keeps t m_ol"
  unfolding keeps_def
proof (intro conjI allI impI)
  fix bol s rep n
  assume t: "plain_tag t" and m: "m_ol bol s = Some (rep, n)"
  define ds where "ds = takeWhile digit_char s"
  define r where "r = drop (length ds) s"
  define line where "line = takeWhile dot_char (drop 2 r)"
  from m have p: "prefix (js ''. '') r" and ne: "line \<noteq> []"
    and rep: "rep = js ''<li>'' @ line @ js ''</li>''" and n: "n = length ds + 2 + length line"
    by (auto simp: m_ol_def Let_def ds_def r_def line_def split: if_splits)
  have r': "r = dropWhile digit_char s" by (simp add: r_def ds_def dropWhile_eq_drop)
  then have s1: "s = ds @ r" by (simp add: ds_def)
  from p obtain r2 where r2: "r = [46, 32] @ r2" by (auto simp: prefix_def js_def)
  have "line = takeWhile dot_char r2" using r2 by (simp add: line_def)
  then have "r2 = line @ dropWhile dot_char r2" by simp
  then have s2: "s = (ds @ [46, 32] @ line) @ dropWhile dot_char r2"
    using s1 r2 by simp
  have n': "n = length (ds @ [46, 32] @ line)" using n by simp
  have tk: "take n s = ds @ [46, 32] @ line"
    unfolding n' by (subst s2) simp
  have dr: "drop n s = dropWhile dot_char r2"
    unfolding n' by (subst s2) simp
  show "0 < n" using n by simp
  show "n \<le> length s" unfolding n' by (subst s2) simp
  show "sublist t rep" if "sublist t (take n s)"
  proof -
    have "\<forall>c\<in>set ds. digit_char c" unfolding ds_def by (auto dest: set_takeWhileD)
    then have "hd t \<notin> set (ds @ [46, 32])"
      using plain_tag_facts(2) [OF t] by (auto simp: digit_char_def)
    moreover have "sublist t ((ds @ [46, 32]) @ line)" using that tk by simp
    ultimately have "sublist t line"
      using plain_tag_facts(1) [OF t] by (rule sublist_drop_left [rotated 2])
    then show ?thesis using rep by (simp add: sublist_append)
  qed
  show "\<not> straddles t (take n s) (drop n s)"
    using t dr by (rule no_straddle_line_end)
next
  fix s t1 t2
  show "m_ol False s = None" by (simp add: m_ol_def)
qed

lemma renderMarkdown_keeps:
  assumes t: "plain_tag t" and s: "sublist t text"
  shows "sublist t (renderMarkdown text)"
proof -
  note lt = plain_tag_facts(5) [OF t]
  have star: "js ''*'' \<noteq> []" "set (js ''*'') = {42}" "js ''**'' \<noteq> []" "set (js ''**'') = {42}"
    by (simp_all add: js_def)
  have pre: "60 \<notin> set (js ''### '')" "60 \<notin> set (js ''## '')" "60 \<notin> set (js ''# '')"
    "60 \<notin> set (js ''- '')"
    by (simp_all add: js_def)
  show ?thesis
    unfolding renderMarkdown_def
    by (intro replace_all_keeps [OF _ lt] keeps_line keeps_par keeps_hr keeps_ol keeps_ul
        keeps_line_prefix keeps_delimited t s star pre)
qed

lemmas eval_markdown =
  replace_all.simps li_groups.simps m_delimited_def m_line_prefix_def m_ul_def m_ol_def
  m_hr_def m_par_def m_line_def li_group_def js_def dot_char_def digit_char_def
  is_line_terminator_def Let_def

text \<open>
  C10, as stated, fails: the input is the tag \<^verbatim>\<open><a b=*c*>\<close>, whose attribute value
  holds two asterisks. The emphasis rule rewrites the value, and the tag is no part of
  the HTML that results.
\<close>

theorem tag_with_asterisks_rewritten:
  "sublist (js ''<a b=*c*>'') (js ''<a b=*c*>'') \<and>
   renderMarkdown (js ''<a b=*c*>'') = js ''<a b=<em>c</em>>'' \<and>
   \<not> sublist (js ''<a b=*c*>'') (renderMarkdown (js ''<a b=*c*>''))"
proof -
  have e: "renderMarkdown (js ''<a b=*c*>'') = js ''<a b=<em>c</em>>''"
    unfolding renderMarkdown_def by (simp add: eval_markdown)
  have "\<not> sublist (js ''<a b=*c*>'') (js ''<a b=<em>c</em>>'')"
    by (simp add: js_def sublist_Cons_right)
  with e show ?thesis by simp
qed

text \<open>
  C10, amended: \<^verbatim>\<open>renderMarkdown\<close> escapes nothing. Every tag of the message text that
  is made of \<^verbatim>\<open><\<close>, then code units other than \<^verbatim>\<open><\<close>, \<^verbatim>\<open>>\<close>, \<^verbatim>\<open>*\<close> and line
  terminators, then \<^verbatim>\<open>>\<close>, stands unchanged in the HTML that the agent message
  component sets as inner HTML.
\<close>

theorem plain_tag_in_inner_html:
  "plain_tag t \<Longrightarrow> sublist t (cm_content message) \<Longrightarrow> sublist t (inner_html message)"
  unfolding inner_html_def by (rule renderMarkdown_keeps)

text \<open>
  C10, amended, at a concrete input: a message with bold text and a script tag.
\<close>

theorem plain_tag_in_inner_html_witness:
  "plain_tag (js ''<script>'') \<and>
   sublist (js ''<script>'') (cm_content (blank_message Assistant_sid (js ''**Hi** <script>''))) \<and>
   sublist (js ''<script>'') (inner_html (blank_message Assistant_sid (js ''**Hi** <script>''))) \<and>
   inner_html (blank_message Assistant_sid (js ''**Hi** <script>'')) =
     js ''<strong>Hi</strong> <script>''"
proof -
  have p: "plain_tag (js ''<script>'')"
    by (simp add: plain_tag_def js_def is_line_terminator_def)
  have c: "cm_content (blank_message Assistant_sid (js ''**Hi** <script>'')) =
      js ''**Hi** '' @ js ''<script>''"
    by (simp add: blank_message_def js_def)
  have s: "sublist (js ''<script>'')
      (cm_content (blank_message Assistant_sid (js ''**Hi** <script>'')))"
    unfolding c by (rule sublist_append_leftI)
  have e: "inner_html (blank_message Assistant_sid (js ''**Hi** <script>'')) =
      js ''<strong>Hi</strong> <script>''"
    unfolding inner_html_def renderMarkdown_def
    by (simp add: blank_message_def eval_markdown)
  show ?thesis
    using plain_tag_in_inner_html [OF p s] p s e by simp
qed

section \<open>The events of a run (C1)\<close>

lemma filter_agent_responses:
  "(\<And>r. \<not> P (Ev_agent_response r)) \<Longrightarrow> filter P (map Ev_agent_response rs) = []"
  by (induction rs) auto

text \<open>
  C1: the events delivered for a run hold one routing event, at most one synthesis
  event (one when the synthesizer is called, none otherwise) and exactly one terminal
  event, done or error, which is the last event.
\<close>

theorem event_counts_of_a_run:
  "count_where is_routing (run_events i) = 1 \<and>
   count_where is_synthesis (run_events i) = (if needs_synthesis (settle i) then 1 else 0) \<and>
   count_where is_synthesis (run_events i) \<le> 1 \<and>
   count_where is_terminal (run_events i) = 1 \<and>
   is_terminal (last (run_events i))"
  by (simp add: run_events_def count_where_def synthesize_def filter_agent_responses)

end
